theory Spec2Isabelle
  imports Main "HOL-Library.Word" "HOL-Library.AList"
begin

section \<open>The tile cache (openslide-cache.c)\<close>

text \<open>
  Pointers are addresses in a store. The cache owns its keys and values outright, so
  they are held by value; a \<open>struct _openslide_cache_entry\<close> is shared between the cache
  and its callers through its reference count, so entries live in an explicit heap
  \<open>entries\<close> and are named by address. \<open>g_slice_new\<close> of an entry hands out the address
  \<open>next_entry\<close>, which no live entry has.

  The fields \<open>link\<close> and \<open>cache\<close> of \<open>struct _openslide_cache_value\<close> are back pointers:
  \<open>link\<close> is the node of the recency list that carries the value (here: the position of
  the value in \<open>c_list\<close>), \<open>cache\<close> is the cache the value sits in (here: the state it is
  part of). The mutexes are not modelled: every operation runs alone.
\<close>

type_synonym ptr = nat

record cache_key =
  k_plane :: ptr
  k_x :: "64 word"
  k_y :: "64 word"

record cache_value =
  v_key :: cache_key
  v_entry :: ptr

record cache_entry =
  e_refcount :: "32 word"
  e_data :: ptr
  e_size :: "64 word"

text \<open>
  \<open>struct _openslide_cache\<close> together with the entry heap. \<open>c_list\<close> is the GQueue, head
  first; \<open>c_hashtable\<close> is the GHashTable as an association list from keys to values.
  \<open>log_warnings\<close> counts the performance warnings written to the log.
\<close>

record cache_state =
  c_list :: "cache_value list"
  c_hashtable :: "(cache_key \<times> cache_value) list"
  c_refcount :: int
  c_capacity :: "64 word"
  c_total_size :: "64 word"
  c_warned_overlarge_entry :: "32 word"
  entries :: "ptr \<rightharpoonup> cache_entry"
  next_entry :: ptr
  log_warnings :: nat

text \<open>What ends the process: a failed \<open>g_assert\<close>, a dereference of an address that
  holds no object (or of \<open>NULL\<close>), an integer division by zero, a write past the end
  of a stack buffer.\<close>

datatype abort = Assertion_Failed | Invalid_Pointer | Division_By_Zero | Buffer_Overflow

text \<open>\<open>_openslide_cache_entry_unref\<close>: \<open>g_atomic_int_dec_and_test\<close>, and the entry is
  freed when the count reaches zero.\<close>

definition openslide_cache_entry_unref :: "ptr \<Rightarrow> cache_state \<Rightarrow> abort + cache_state" where
  "openslide_cache_entry_unref entry s =
     (case entries s entry of
        None \<Rightarrow> Inl Invalid_Pointer
      | Some en \<Rightarrow>
          if e_refcount en - 1 = 0
          then Inr (s\<lparr>entries := (entries s)(entry := None)\<rparr>)
          else Inr (s\<lparr>entries := (entries s)(entry \<mapsto> en\<lparr>e_refcount := e_refcount en - 1\<rparr>)\<rparr>))"

text \<open>\<open>hash_destroy_value\<close>, the value destructor of the hash table.\<close>

definition hash_destroy_value :: "cache_value \<Rightarrow> cache_state \<Rightarrow> abort + cache_state" where
  "hash_destroy_value val s =
     (let s1 = s\<lparr>c_list := remove1 val (c_list s)\<rparr>
      in case entries s1 (v_entry val) of
           None \<Rightarrow> Inl Invalid_Pointer
         | Some en \<Rightarrow>
             if e_size en \<le> c_total_size s1
             then openslide_cache_entry_unref (v_entry val)
                    (s1\<lparr>c_total_size := c_total_size s1 - e_size en\<rparr>)
             else Inl Assertion_Failed)"

text \<open>GLib's \<open>g_hash_table_remove\<close> and \<open>g_hash_table_replace\<close> on a table created with
  \<open>g_hash_table_new_full\<close>: the entry leaves (or changes in) the table, then the
  destructor of the old value runs.\<close>

definition g_hash_table_remove :: "cache_key \<Rightarrow> cache_state \<Rightarrow> abort + (bool \<times> cache_state)" where
  "g_hash_table_remove key s =
     (case map_of (c_hashtable s) key of
        None \<Rightarrow> Inr (False, s)
      | Some val \<Rightarrow>
          (case hash_destroy_value val (s\<lparr>c_hashtable := AList.delete key (c_hashtable s)\<rparr>) of
             Inl a \<Rightarrow> Inl a
           | Inr s' \<Rightarrow> Inr (True, s')))"

definition g_hash_table_replace :: "cache_key \<Rightarrow> cache_value \<Rightarrow> cache_state \<Rightarrow> abort + cache_state" where
  "g_hash_table_replace key val s =
     (let s1 = s\<lparr>c_hashtable := AList.update key val (c_hashtable s)\<rparr>
      in case map_of (c_hashtable s) key of
           None \<Rightarrow> Inr s1
         | Some old \<Rightarrow> hash_destroy_value old s1)"

lemma hash_destroy_value_hashtable:
  "hash_destroy_value val s = Inr s' \<Longrightarrow> c_hashtable s' = c_hashtable s"
  by (auto simp: hash_destroy_value_def openslide_cache_entry_unref_def Let_def
           split: option.splits if_splits)

lemma length_delete_less:
  "map_of al k = Some v \<Longrightarrow> length (AList.delete k al) < length al"
proof -
  assume "map_of al k = Some v"
  then have "(k, v) \<in> set al" by (rule map_of_SomeD)
  then show ?thesis
    unfolding AList.delete_eq by (intro length_filter_less [of "(k, v)"]) auto
qed

lemma g_hash_table_remove_shrinks:
  "g_hash_table_remove key s = Inr (True, s') \<Longrightarrow>
     length (c_hashtable s') < length (c_hashtable s)"
  by (auto simp: g_hash_table_remove_def length_delete_less
           split: option.splits sum.splits dest!: hash_destroy_value_hashtable)

text \<open>The loop of \<open>possibly_evict\<close>. Every turn that goes round again has taken a key
  out of the hash table, which is why the loop ends.\<close>

function evict_loop :: "64 word \<Rightarrow> 64 word \<Rightarrow> cache_state \<Rightarrow> abort + cache_state" where
  "evict_loop sz target s =
     (if sz > target then
        (case c_list s of
           [] \<Rightarrow> Inr s
         | _ # _ \<Rightarrow>
             (let val = last (c_list s); key = v_key val
              in case entries s (v_entry val) of
                   None \<Rightarrow> Inl Invalid_Pointer
                 | Some en \<Rightarrow>
                     (case g_hash_table_remove key s of
                        Inl a \<Rightarrow> Inl a
                      | Inr (result, s') \<Rightarrow>
                          if result then evict_loop (sz - e_size en) target s'
                          else Inl Assertion_Failed)))
      else Inr s)"
  by pat_completeness auto
termination
  by (relation "measure (\<lambda>(sz, target, s). length (c_hashtable s))")
     (auto dest: g_hash_table_remove_shrinks)

declare evict_loop.simps [simp del]

definition possibly_evict :: "cache_state \<Rightarrow> 64 word \<Rightarrow> abort + cache_state" where
  "possibly_evict s incoming_size =
     (let sz = c_total_size s + incoming_size;
          target = c_capacity s
      in if sz > c_total_size s then evict_loop sz target s else Inl Assertion_Failed)"

definition openslide_cache_create :: "64 word \<Rightarrow> cache_state" where
  "openslide_cache_create capacity_in_bytes =
     \<lparr>c_list = [], c_hashtable = [], c_refcount = 1, c_capacity = capacity_in_bytes,
      c_total_size = 0, c_warned_overlarge_entry = 0, entries = Map.empty,
      next_entry = 0, log_warnings = 0\<rparr>"

text \<open>Modelled from the spec: \<open>_openslide_performance_warn_once\<close> is declared in
  openslide-private.h and defined outside the two source files. The spec calls it a
  latch with an atomic one-time publication and a warning emitted once per cache: the
  flag goes from 0 to 1 and the warning is written only on that transition. The result
  is the new flag and whether a warning was written.\<close>

definition openslide_performance_warn_once :: "32 word \<Rightarrow> 32 word \<times> bool" where
  "openslide_performance_warn_once warned_flag =
     (if warned_flag = 0 then (1, True) else (warned_flag, False))"

definition atomic_int_inc :: "ptr \<Rightarrow> cache_state \<Rightarrow> abort + cache_state" where
  "atomic_int_inc entry s =
     (case entries s entry of
        None \<Rightarrow> Inl Invalid_Pointer
      | Some en \<Rightarrow> Inr (s\<lparr>entries := (entries s)(entry \<mapsto> en\<lparr>e_refcount := e_refcount en + 1\<rparr>)\<rparr>))"

text \<open>\<open>_openslide_cache_put\<close>. The result is the entry stored in \<open>*_entry\<close> and the new
  state.\<close>

definition openslide_cache_put ::
  "ptr \<Rightarrow> 64 word \<Rightarrow> 64 word \<Rightarrow> ptr \<Rightarrow> 64 word \<Rightarrow> cache_state \<Rightarrow> abort + (ptr \<times> cache_state)" where
  "openslide_cache_put plane x y data size_in_bytes s =
     (let entry = next_entry s;
          s1 = s\<lparr>entries := (entries s)(entry \<mapsto>
                      \<lparr>e_refcount = 1, e_data = data, e_size = size_in_bytes\<rparr>),
                 next_entry := Suc entry\<rparr>
      in if size_in_bytes > c_capacity s1 then
           (let (flag, warn) = openslide_performance_warn_once (c_warned_overlarge_entry s1)
            in Inr (entry, s1\<lparr>c_warned_overlarge_entry := flag,
                              log_warnings := log_warnings s1 + (if warn then 1 else 0)\<rparr>))
         else
           (case possibly_evict s1 size_in_bytes of
              Inl a \<Rightarrow> Inl a
            | Inr s2 \<Rightarrow>
                (let key = \<lparr>k_plane = plane, k_x = x, k_y = y\<rparr>;
                     val = \<lparr>v_key = key, v_entry = entry\<rparr>;
                     s3 = s2\<lparr>c_list := val # c_list s2\<rparr>
                 in case g_hash_table_replace key val s3 of
                      Inl a \<Rightarrow> Inl a
                    | Inr s4 \<Rightarrow>
                        (case atomic_int_inc entry
                                (s4\<lparr>c_total_size := c_total_size s4 + size_in_bytes\<rparr>) of
                           Inl a \<Rightarrow> Inl a
                         | Inr s5 \<Rightarrow> Inr (entry, s5)))))"

text \<open>\<open>_openslide_cache_get\<close>. \<open>None\<close> is the miss (\<open>NULL\<close> returned, \<open>*_entry = NULL\<close>); a hit
  gives the data pointer and the entry.\<close>

definition openslide_cache_get ::
  "ptr \<Rightarrow> 64 word \<Rightarrow> 64 word \<Rightarrow> cache_state \<Rightarrow> abort + ((ptr \<times> ptr) option \<times> cache_state)" where
  "openslide_cache_get plane x y s =
     (let key = \<lparr>k_plane = plane, k_x = x, k_y = y\<rparr>
      in case map_of (c_hashtable s) key of
           None \<Rightarrow> Inr (None, s)
         | Some val \<Rightarrow>
             (let s1 = s\<lparr>c_list := val # remove1 val (c_list s)\<rparr>;
                  entry = v_entry val
              in case atomic_int_inc entry s1 of
                   Inl a \<Rightarrow> Inl a
                 | Inr s2 \<Rightarrow>
                     (case entries s2 entry of
                        None \<Rightarrow> Inl Invalid_Pointer
                      | Some en \<Rightarrow> Inr (Some (e_data en, entry), s2))))"

text \<open>The bytes a resident value accounts for (the \<open>size\<close> of the entry it holds), and
  their sum over the recency list.\<close>

definition entry_bytes :: "(ptr \<rightharpoonup> cache_entry) \<Rightarrow> cache_value \<Rightarrow> nat" where
  "entry_bytes h val = (case h (v_entry val) of None \<Rightarrow> 0 | Some en \<Rightarrow> unat (e_size en))"

definition resident_size :: "cache_state \<Rightarrow> nat" where
  "resident_size s = sum_list (map (entry_bytes (entries s)) (c_list s))"

text \<open>
  The well-formedness of a cache: the hash table has one node per key; the hash table
  and the recency list hold the same values, each under its own key; no two values hold
  the same entry; every held entry is live; the allocator has not yet handed out the
  addresses from \<open>next_entry\<close> on; the total is the sum of the resident sizes and is
  within the capacity.
\<close>

definition cache_inv :: "cache_state \<Rightarrow> bool" where
  "cache_inv s \<longleftrightarrow>
     distinct (map fst (c_hashtable s)) \<and>
     set (c_list s) = snd ` set (c_hashtable s) \<and>
     (\<forall>kv \<in> set (c_hashtable s). v_key (snd kv) = fst kv) \<and>
     distinct (map v_entry (c_list s)) \<and>
     (\<forall>val \<in> set (c_list s). entries s (v_entry val) \<noteq> None) \<and>
     (\<forall>p. next_entry s \<le> p \<longrightarrow> entries s p = None) \<and>
     resident_size s = unat (c_total_size s) \<and>
     c_total_size s \<le> c_capacity s"


text \<open>The warning latch and the log agree: either nothing was written and the latch
  is clear, or one warning was written and the latch is 1.\<close>

definition latch_inv :: "cache_state \<Rightarrow> bool" where
  "latch_inv s \<longleftrightarrow>
     (c_warned_overlarge_entry s = 0 \<and> log_warnings s = 0) \<or>
     (c_warned_overlarge_entry s = 1 \<and> log_warnings s = 1)"

text \<open>Sequences of the two public operations. A sequence stops at the first abort.\<close>

datatype cache_op =
    Put ptr "64 word" "64 word" ptr "64 word"
  | Get ptr "64 word" "64 word"

fun apply_op :: "cache_op \<Rightarrow> cache_state \<Rightarrow> abort + cache_state" where
  "apply_op (Put plane x y data size_in_bytes) s =
     (case openslide_cache_put plane x y data size_in_bytes s of
        Inl a \<Rightarrow> Inl a | Inr (entry, s') \<Rightarrow> Inr s')"
| "apply_op (Get plane x y) s =
     (case openslide_cache_get plane x y s of
        Inl a \<Rightarrow> Inl a | Inr (r, s') \<Rightarrow> Inr s')"

fun run_ops :: "cache_op list \<Rightarrow> cache_state \<Rightarrow> abort + cache_state" where
  "run_ops [] s = Inr s"
| "run_ops (c # cs) s = (case apply_op c s of Inl a \<Rightarrow> Inl a | Inr s' \<Rightarrow> run_ops cs s')"

section \<open>The VSF backend (openslide-vendor-vsf.c)\<close>

subsection \<open>Files\<close>

text \<open>
  A file system maps a path to the bytes of a readable file. \<open>_openslide_fopen\<close> for
  reading gives a stream at position 0, or \<open>NULL\<close>. A stream is its content and its
  position. \<open>fseeko\<close> to a negative position fails and leaves the position alone; the
  source never looks at its result. \<open>fread\<close> delivers whole items only: it consumes up
  to \<open>size * nmemb\<close> bytes and returns the number of complete items, whose bytes are all
  the caller can rely on.
\<close>

type_synonym byte = "8 word"
type_synonym filesystem = "string \<Rightarrow> byte list option"

record stream =
  f_content :: "byte list"
  f_pos :: nat

definition openslide_fopen :: "filesystem \<Rightarrow> string \<Rightarrow> stream option" where
  "openslide_fopen fs filename =
     (case fs filename of None \<Rightarrow> None | Some bs \<Rightarrow> Some \<lparr>f_content = bs, f_pos = 0\<rparr>)"

datatype whence = SEEK_SET | SEEK_CUR | SEEK_END

definition fseeko :: "stream \<Rightarrow> int \<Rightarrow> whence \<Rightarrow> stream" where
  "fseeko fd off wh =
     (let base = (case wh of SEEK_SET \<Rightarrow> 0
                  | SEEK_CUR \<Rightarrow> int (f_pos fd)
                  | SEEK_END \<Rightarrow> int (length (f_content fd)))
      in if base + off < 0 then fd else fd\<lparr>f_pos := nat (base + off)\<rparr>)"

definition ftello :: "stream \<Rightarrow> nat" where
  "ftello fd = f_pos fd"

definition fread :: "stream \<Rightarrow> nat \<Rightarrow> nat \<Rightarrow> byte list \<times> nat \<times> stream" where
  "fread fd sz nmemb =
     (let avail = drop (f_pos fd) (f_content fd);
          n = min (sz * nmemb) (length avail);
          items = (if sz = 0 then 0 else n div sz)
      in (take (items * sz) avail, items, fd\<lparr>f_pos := f_pos fd + n\<rparr>))"

text \<open>
  What stops a call: a \<open>GError\<close> (the function returns \<open>false\<close> or \<open>NULL\<close>), or the end of
  the process.
\<close>

datatype gerror =
    Unsupported_Product_Version
  | Failed_Parsing_Header
  | Inappropriate_Filename
  | Inappropriate_Filename_Extension
  | Cannot_Open_File
  | Failed_To_Read_Product_Version
  | Failed_Reading_Tile_Layout
  | Tile_Index_Invalid
  | Failed_Reading_Tile_Offset
  | Failed_Reading_Tile_Size
  | Failed_To_Read_Tile_Count
  | Failed_To_Read_Follow_Up_Tile_Offset
  | Unable_To_Read_Required_Data
  | Failed_To_Decode_Data
  | Unknown_Tile_Data_Format
  | Is_A_TIFF_File
  | Missing_Image_Chunk_File
  | Failed_To_Read_Tile_Data
  | Codec_Error
  | Failed_To_Create_Result_Buffer
  | Failed_To_Read_Data_From_File

datatype failure = GError gerror | Crash abort

subsection \<open>Reusable helper functions\<close>

text \<open>
  \<open>_read_bytes\<close>. The block size is \<open>MIN(bytes_remaining, 4096)\<close> whenever the loop
  condition is evaluated, and the condition divides by it: a request for 0 bytes divides
  by zero. The result is the bytes that reached the buffer (their number is
  \<open>bytes_read_total\<close>) and the stream.
\<close>

function read_bytes_loop :: "stream \<Rightarrow> byte list \<Rightarrow> nat \<Rightarrow> failure + (byte list \<times> stream)" where
  "read_bytes_loop fd buffer bytes_remaining =
     (let block_size = min bytes_remaining 4096
      in if block_size = 0 then Inl (Crash Division_By_Zero)
         else (case fread fd block_size (bytes_remaining div block_size) of
                 (data, blocks_read, fd') \<Rightarrow>
                   if blocks_read > 0 then
                     (let buffer' = buffer @ data;
                          bytes_remaining' = bytes_remaining - blocks_read * block_size
                      in if bytes_remaining' = 0 then Inr (buffer', fd')
                         else read_bytes_loop fd' buffer' bytes_remaining')
                   else Inr (buffer, fd')))"
  by pat_completeness auto
termination
  apply (relation "measure (\<lambda>(fd, buffer, bytes_remaining). bytes_remaining)")
   apply simp
  subgoal for fd buffer bytes_remaining
    by (cases "bytes_remaining = 0") auto
  done

declare read_bytes_loop.simps [simp del]

definition read_bytes :: "stream \<Rightarrow> nat \<Rightarrow> failure + (byte list \<times> stream)" where
  "read_bytes fd sz = read_bytes_loop fd [] sz"

text \<open>Integers in a file are read into place on a little-endian machine.\<close>

fun le_nat :: "byte list \<Rightarrow> nat" where
  "le_nat [] = 0"
| "le_nat (b # bs) = unat b + 256 * le_nat bs"

definition le_u32 :: "byte list \<Rightarrow> 32 word" where
  "le_u32 bs = word_of_nat (le_nat bs)"

definition le_u64 :: "byte list \<Rightarrow> 64 word" where
  "le_u64 bs = word_of_nat (le_nat bs)"

subsection \<open>The index file\<close>

text \<open>\<open>struct _index_file_content\<close>, packed. The signed 32-bit fields are kept as words
  and read with \<open>sint\<close>; \<open>z_range\<close> is the bit pattern of the float.\<close>

record index_file_content =
  header :: "byte list"
  level_count :: byte
  r_channel :: byte
  g_channel :: byte
  b_channel :: byte
  size_x :: "32 word"
  size_y :: "32 word"
  resolution_x :: "32 word"
  resolution_y :: "32 word"
  format :: byte
  quality :: byte
  tile_size_x :: "32 word"
  tile_size_y :: "32 word"
  lowest_focal_plane_index :: "32 word"
  highest_focal_plane_index :: "32 word"
  z_range :: "32 word"
  major_version :: byte
  minor_version :: byte

definition tile_format_jpeg :: byte where "tile_format_jpeg = 0"
definition tile_format_jpeg2000 :: byte where "tile_format_jpeg2000 = 1"
definition tile_format_png :: byte where "tile_format_png = 2"
definition tile_format_bmp :: byte where "tile_format_bmp = 3"

text \<open>The first \<open>header_size\<close> bytes of the file, copied over the start of the packed
  struct: 60 bytes end with \<open>tile_size_y\<close>, 72 bytes end with \<open>z_range\<close>.\<close>

definition copy_packed_header :: "byte list \<Rightarrow> index_file_content \<Rightarrow> index_file_content" where
  "copy_packed_header d content =
     (let c60 = content\<lparr>header := take 30 d,
                level_count := d ! 30, r_channel := d ! 31, g_channel := d ! 32,
                b_channel := d ! 33,
                size_x := le_u32 (take 4 (drop 34 d)),
                size_y := le_u32 (take 4 (drop 38 d)),
                resolution_x := le_u32 (take 4 (drop 42 d)),
                resolution_y := le_u32 (take 4 (drop 46 d)),
                format := d ! 50, quality := d ! 51,
                tile_size_x := le_u32 (take 4 (drop 52 d)),
                tile_size_y := le_u32 (take 4 (drop 56 d))\<rparr>
      in if length d = 72
         then c60\<lparr>lowest_focal_plane_index := le_u32 (take 4 (drop 60 d)),
                  highest_focal_plane_index := le_u32 (take 4 (drop 64 d)),
                  z_range := le_u32 (take 4 (drop 68 d))\<rparr>
         else c60)"

text \<open>\<open>_read_index_file_content\<close>. The four reads of major version 1 are joined by
  \<open>||\<close>: the first short read ends the chain.\<close>

definition read_index_file_content :: "stream \<Rightarrow> index_file_content \<Rightarrow> failure + index_file_content" where
  "read_index_file_content fd content0 =
     (let content = content0\<lparr>r_channel := 255, g_channel := 255, b_channel := 255,
                      lowest_focal_plane_index := 0, highest_focal_plane_index := 0,
                      quality := 0, format := tile_format_jpeg, z_range := 0,
                      level_count := 9, resolution_x := 0, resolution_y := 0\<rparr>
      in if major_version content = 1 then
           (case (if minor_version content = 0 then Some 9
                  else if minor_version content = 1 then Some 13
                  else if minor_version content = 2 then Some 25
                  else None) of
              None \<Rightarrow> Inl (GError Unsupported_Product_Version)
            | Some seek \<Rightarrow>
                (case read_bytes (fseeko fd seek SEEK_SET) 4 of
                   Inl f \<Rightarrow> Inl f
                 | Inr (d1, fd1) \<Rightarrow>
                     if length d1 \<noteq> 4 then Inl (GError Failed_Parsing_Header)
                     else (case read_bytes fd1 4 of
                        Inl f \<Rightarrow> Inl f
                      | Inr (d2, fd2) \<Rightarrow>
                          if length d2 \<noteq> 4 then Inl (GError Failed_Parsing_Header)
                          else (case read_bytes fd2 4 of
                             Inl f \<Rightarrow> Inl f
                           | Inr (d3, fd3) \<Rightarrow>
                               if length d3 \<noteq> 4 then Inl (GError Failed_Parsing_Header)
                               else (case read_bytes fd3 4 of
                                  Inl f \<Rightarrow> Inl f
                                | Inr (d4, fd4) \<Rightarrow>
                                    if length d4 \<noteq> 4 then Inl (GError Failed_Parsing_Header)
                                    else Inr (content\<lparr>size_x := le_u32 d1,
                                                size_y := le_u32 d2,
                                                tile_size_x := le_u32 d3,
                                                tile_size_y := le_u32 d4\<rparr>))))))
         else if major_version content = 2 then
           (let header_size = (if minor_version content = 0 then 60 else 72)
            in case read_bytes (fseeko fd 0 SEEK_SET) header_size of
                 Inl f \<Rightarrow> Inl f
               | Inr (d, fd1) \<Rightarrow>
                   if length d \<noteq> header_size then Inl (GError Failed_Parsing_Header)
                   else Inr (copy_packed_header d content))
         else Inr content)"

text \<open>The loop of \<open>_read_index_file\<close> over the extension: each letter is lowered when it
  is a capital and compared with the letter of \<open>.vsf\<close> at its place.\<close>

fun extension_matches :: "string \<Rightarrow> string \<Rightarrow> bool" where
  "extension_matches [] [] = True"
| "extension_matches (c # cs) (e # es) =
     ((if of_char c \<ge> (65::nat) \<and> of_char c \<le> (90::nat)
       then char_of (of_char c + (32::nat)) else c) = e \<and> extension_matches cs es)"
| "extension_matches _ _ = False"

text \<open>The local \<open>result\<close> of \<open>_read_index_file\<close> starts uninitialised. Every field is
  written before it is read, apart from the tail of \<open>header\<close>, which nothing reads; the
  model starts from zeros.\<close>

definition blank_content :: index_file_content where
  "blank_content =
     \<lparr>header = [], level_count = 0, r_channel = 0, g_channel = 0, b_channel = 0,
      size_x = 0, size_y = 0, resolution_x = 0, resolution_y = 0, format = 0, quality = 0,
      tile_size_x = 0, tile_size_y = 0, lowest_focal_plane_index = 0,
      highest_focal_plane_index = 0, z_range = 0, major_version = 0, minor_version = 0\<rparr>"

text \<open>The version test of \<open>_read_index_file\<close> on the six bytes read. \<open>char\<close> is signed
  (x86), so the comparisons \<open>>=\<close> and \<open><=\<close> are on \<open>sint\<close>. The result is the major and
  minor version, or nothing when \<open>valid_product_version\<close> stays false.\<close>

definition product_version :: "byte list \<Rightarrow> (byte \<times> byte) option" where
  "product_version hdr =
     (if hdr ! 1 = 0x31 then
        (if hdr ! 3 = 0x30 \<or> hdr ! 3 = 0x31 \<or> hdr ! 3 = 0x32
         then Some (1, hdr ! 3 - 0x30) else None)
      else if sint (hdr ! 3) \<ge> 0x32 \<and> sint (hdr ! 5) \<ge> 0x30 \<and> sint (hdr ! 5) \<le> 0x39
      then Some (2, hdr ! 5 - 0x30)
      else None)"

definition read_index_file :: "filesystem \<Rightarrow> string \<Rightarrow> failure + index_file_content" where
  "read_index_file fs filename =
     (let extension_length = 4
      in if length filename \<le> extension_length then Inl (GError Inappropriate_Filename)
         else if \<not> extension_matches (drop (length filename - extension_length) filename) ''.vsf''
         then Inl (GError Inappropriate_Filename_Extension)
         else (case openslide_fopen fs filename of
                 None \<Rightarrow> Inl (GError Cannot_Open_File)
               | Some vsf_file \<Rightarrow>
                   (case read_bytes vsf_file 6 of
                      Inl f \<Rightarrow> Inl f
                    | Inr (hdr, fd1) \<Rightarrow>
                        if length hdr \<noteq> 6 then Inl (GError Failed_To_Read_Product_Version)
                        else (case product_version hdr of
                                None \<Rightarrow> Inl (GError Failed_To_Read_Product_Version)
                              | Some (major, minor) \<Rightarrow>
                                  read_index_file_content fd1
                                    (blank_content\<lparr>header := hdr, major_version := major,
                                                   minor_version := minor\<rparr>)))))"

subsection \<open>Names of the image files\<close>

text \<open>\<open>sprintf\<close> of a number in decimal.\<close>

function decimal :: "nat \<Rightarrow> string" where
  "decimal n = (if n < 10 then [char_of (48 + n)]
                else decimal (n div 10) @ [char_of (48 + n mod 10)])"
  by pat_completeness auto
termination
  by (relation "measure id") auto

declare decimal.simps [simp del]

text \<open>\<open>_create_file_name_with_extension\<close>. The source allocates exactly the length of
  the name and fills all of it: no terminating zero is written. The string that the
  callers and \<open>fopen\<close> see therefore runs on through the bytes that lie behind the buffer
  in memory, up to the first zero. \<open>after\<close> gives these bytes for the name written; it
  gives the empty string where a zero follows at once. A file name shorter than the
  extension \<open>.vsf\<close> makes the unsigned length wrap and the copy run off.\<close>

definition create_file_name_with_extension ::
  "(string \<Rightarrow> string) \<Rightarrow> string \<Rightarrow> string \<Rightarrow> failure + string" where
  "create_file_name_with_extension after filename extension =
     (let extension_length = 4
      in if length filename < extension_length then Inl (Crash Buffer_Overflow)
         else (let written = take (length filename - extension_length) filename @ extension
               in Inr (written @ after written)))"

text \<open>\<open>_create_file_name_for_layer\<close>. The three formats are \<open>-level%1i%s\<close>,
  \<open>-level%02i%s\<close> and \<open>-level%02i%+02d%s\<close>. The stack buffer has 14 bytes, or 17 with
  a focal plane, but \<open>sprintf\<close> is not given this bound: it writes the whole text, and
  the text is the extension also where it is longer than the buffer (a focal plane of
  four digits, or one of three beside a layer of three).\<close>

definition create_file_name_for_layer ::
  "(string \<Rightarrow> string) \<Rightarrow> index_file_content \<Rightarrow> string \<Rightarrow> byte \<Rightarrow> 32 word \<Rightarrow>
     failure + string" where
  "create_file_name_for_layer after file_info filename layer focal_plane_index =
     (let two_digits = (if unat layer < 10 then ''0'' @ decimal (unat layer)
                        else decimal (unat layer));
          extension =
            (if major_version file_info = 1
             then ''-level'' @ decimal (unat layer) @ ''.img''
             else if focal_plane_index = 0
             then ''-level'' @ two_digits @ ''.img''
             else ''-level'' @ two_digits @
                  (if sint focal_plane_index < 0 then ''-'' else ''+'') @
                  decimal (nat \<bar>sint focal_plane_index\<bar>) @ ''.img'')
      in create_file_name_with_extension after filename extension)"

definition has_file_name_for_layer ::
  "(string \<Rightarrow> string) \<Rightarrow> filesystem \<Rightarrow> index_file_content \<Rightarrow> string \<Rightarrow> byte \<Rightarrow>
     32 word \<Rightarrow> failure + bool" where
  "has_file_name_for_layer after fs file_info filename layer focal_plane_index =
     (case create_file_name_for_layer after file_info filename layer focal_plane_index of
        Inl f \<Rightarrow> Inl f
      | Inr image_filename \<Rightarrow>
          (case openslide_fopen fs image_filename of
             None \<Rightarrow> Inr False
           | Some file_pointer \<Rightarrow> Inr True))"

subsection \<open>Detection\<close>

text \<open>The two loops of \<open>vsf_detect\<close>: \<open>focal_plane\<close> is a signed 32-bit counter running up
  to \<open>highest_focal_plane_index\<close>, \<open>level\<close> an unsigned 8-bit counter running up to
  \<open>level_count\<close>. The result \<open>False\<close> is the early \<open>return false\<close>.\<close>

lemma sint_succ_less:
  fixes x y :: "32 word"
  assumes "sint x < sint y"
  shows "sint (x + 1) = sint x + 1"
proof -
  have "sint x + 1 < 2 ^ 31" using assms sint_lt [of y] by simp
  moreover have "- (2 ^ 31) \<le> sint x + 1" using sint_ge [of x] by simp
  ultimately have "signed_take_bit 31 (sint x + 1) = sint x + 1"
    by (rule signed_take_bit_int_eq_self [rotated])
  then show ?thesis by (simp add: sint_word_add)
qed

function detect_focal_planes ::
  "(string \<Rightarrow> string) \<Rightarrow> filesystem \<Rightarrow> index_file_content \<Rightarrow> string \<Rightarrow> byte \<Rightarrow>
     32 word \<Rightarrow> failure + bool" where
  "detect_focal_planes after fs content filename level focal_plane =
     (if sint focal_plane < sint (highest_focal_plane_index content) then
        (case has_file_name_for_layer after fs content filename level focal_plane of
           Inl f \<Rightarrow> Inl f
         | Inr present \<Rightarrow>
             if present = False then Inr False
             else detect_focal_planes after fs content filename level (focal_plane + 1))
      else Inr True)"
  by pat_completeness auto
termination
proof (relation "measure (\<lambda>(after, fs, content, filename, level, focal_plane).
                    nat (sint (highest_focal_plane_index content) - sint focal_plane))",
       goal_cases)
  case 1
  show ?case by simp
next
  case (2 after fs content filename level focal_plane x2)
  then show ?case by (simp add: sint_succ_less)
qed

declare detect_focal_planes.simps [simp del]

lemma unat_succ_less:
  fixes x y :: "'a::len word"
  assumes "x < y"
  shows "unat (x + 1) = unat x + 1"
proof -
  have "unat x < unat y" using assms by (simp add: word_less_nat_alt)
  moreover have "unat y < 2 ^ LENGTH('a)" by (rule unsigned_less)
  ultimately have "unat x + 1 < 2 ^ LENGTH('a)" by linarith
  then have "unat x + unat (1 :: 'a word) < 2 ^ LENGTH('a)" by simp
  then have "unat (x + 1) = unat x + unat (1 :: 'a word)" by (simp only: unat_add_lem)
  then show ?thesis by simp
qed

function detect_levels ::
  "(string \<Rightarrow> string) \<Rightarrow> filesystem \<Rightarrow> index_file_content \<Rightarrow> string \<Rightarrow> byte \<Rightarrow>
     failure + bool" where
  "detect_levels after fs content filename level =
     (if level < level_count content then
        (case detect_focal_planes after fs content filename level
                (lowest_focal_plane_index content) of
           Inl f \<Rightarrow> Inl f
         | Inr ok \<Rightarrow>
             if ok then detect_levels after fs content filename (level + 1) else Inr False)
      else Inr True)"
  by pat_completeness auto
termination
proof (relation "measure (\<lambda>(after, fs, content, filename, level).
                    unat (level_count content) - unat level)", goal_cases)
  case 1
  show ?case by simp
next
  case (2 after fs content filename level x2)
  from 2(1) have "unat level < unat (level_count content)" by (simp add: word_less_nat_alt)
  with 2(1) show ?case by (simp add: unat_succ_less)
qed

declare detect_levels.simps [simp del]

text \<open>\<open>vsf_detect\<close>; \<open>tifflike\<close> says whether a TIFF-like prefetch was passed (\<open>tl != NULL\<close>).\<close>

definition vsf_detect ::
  "(string \<Rightarrow> string) \<Rightarrow> filesystem \<Rightarrow> string \<Rightarrow> bool \<Rightarrow> failure + bool" where
  "vsf_detect after fs filename tifflike =
     (if tifflike then Inr False
      else (case read_index_file fs filename of
              Inl (GError e) \<Rightarrow> Inr False
            | Inl (Crash a) \<Rightarrow> Inl (Crash a)
            | Inr content \<Rightarrow> detect_levels after fs content filename 0))"

subsection \<open>Locating a tile\<close>

definition sizeof_uint8 :: nat where "sizeof_uint8 = 1"
definition sizeof_uint32 :: nat where "sizeof_uint32 = 4"
definition sizeof_uint64 :: nat where "sizeof_uint64 = 8"

text \<open>The \<open>for\<close> loop of the version 1 locator: \<open>layer\<close> relative seeks by the same
  distance.\<close>

primrec skip_levels :: "nat \<Rightarrow> int \<Rightarrow> stream \<Rightarrow> stream" where
  "skip_levels 0 distance fd = fd"
| "skip_levels (Suc i) distance fd = skip_levels i distance (fseeko fd distance SEEK_CUR)"

text \<open>A read of at most \<open>n\<close> bytes into an integer variable that holds \<open>old\<close> replaces
  its low bytes (little-endian) and keeps the rest.\<close>

definition overlay :: "byte list \<Rightarrow> nat \<Rightarrow> byte list \<Rightarrow> byte list" where
  "overlay old n d = d @ drop (length d) old"

text \<open>
  \<open>_get_tile_infomation_version1\<close>, as written. In each of its four reads the closing
  parenthesis of \<open>_read_bytes\<close> comes after the comparison, so that the number of bytes
  asked for is the truth value of the comparison (\<open>sizeof(tiles_x) != sizeof(tiles_x)\<close>
  is 0, \<open>offset_size != sizeof(offset_size)\<close> is 1 for the offset sizes 4 and 8), and the
  \<open>if\<close> takes a nonzero number of bytes read for the failure. The arithmetic on
  \<open>tiles_x\<close>, \<open>tiles_y\<close> and \<open>tile_index\<close> is unsigned 32-bit.
\<close>

definition get_tile_infomation_version1 ::
  "byte \<Rightarrow> stream \<Rightarrow> byte \<Rightarrow> 32 word \<Rightarrow> failure + (64 word \<times> 64 word)" where
  "get_tile_infomation_version1 minor fd layer tile_index =
     (case (if minor = 0 then Some (25, 12, 16, 4)
            else if minor = 1 then Some (29, 16, 16, 8)
            else if minor = 2 then Some (41, 16, 28, 8)
            else None) of
        None \<Rightarrow> Inl (GError Unsupported_Product_Version)
      | Some (seek, tile_record_size, level_record_offset, offset_size) \<Rightarrow>
          (case read_bytes (fseeko fd seek SEEK_SET)
                  (of_bool (sizeof_uint32 \<noteq> sizeof_uint32)) of
             Inl f \<Rightarrow> Inl f
           | Inr (dx, fd1) \<Rightarrow>
               if length dx \<noteq> 0 then Inl (GError Failed_Reading_Tile_Layout)
               else (case read_bytes fd1 (of_bool (sizeof_uint32 \<noteq> sizeof_uint32)) of
                  Inl f \<Rightarrow> Inl f
                | Inr (dy, fd2) \<Rightarrow>
                    if length dy \<noteq> 0 then Inl (GError Failed_Reading_Tile_Layout)
                    else
                      (let tiles_x = le_u32 (overlay [0, 0, 0, 0] 4 dx);
                           tiles_y = le_u32 (overlay [0, 0, 0, 0] 4 dy);
                           fd3 = skip_levels (unat layer)
                                   (uint (tiles_x * tiles_y * tile_record_size
                                          + level_record_offset)) fd2
                       in if tiles_x * tiles_y \<le> tile_index
                          then Inl (GError Tile_Index_Invalid)
                          else
                            (case read_bytes
                                    (fseeko fd3 (uint (tile_index * tile_record_size)) SEEK_CUR)
                                    (of_bool (offset_size \<noteq> sizeof_uint8)) of
                               Inl f \<Rightarrow> Inl f
                             | Inr (d_off, fd4) \<Rightarrow>
                                 if length d_off \<noteq> 0
                                 then Inl (GError Failed_Reading_Tile_Offset)
                                 else
                                   (let offset0 = le_u64 (overlay [0, 0, 0, 0, 0, 0, 0, 0] 8 d_off);
                                        offset = drop_bit ((sizeof_uint64 - offset_size) * 8) offset0
                                    in case read_bytes fd4
                                              (of_bool (sizeof_uint32 \<noteq> sizeof_uint32)) of
                                         Inl f \<Rightarrow> Inl f
                                       | Inr (d_size, fd5) \<Rightarrow>
                                           if length d_size \<noteq> 0
                                           then Inl (GError Failed_Reading_Tile_Size)
                                           else Inr (offset, drop_bit 32 offset)))))))"

text \<open>\<open>_get_tile_infomation_version2\<close>. \<open>tile_index\<close> is widened to 64 bits for the
  comparisons; the size is a difference of unsigned 64-bit numbers.\<close>

definition get_tile_infomation_version2 ::
  "byte \<Rightarrow> stream \<Rightarrow> 32 word \<Rightarrow> failure + (64 word \<times> 64 word)" where
  "get_tile_infomation_version2 minor fd tile_index =
     (case read_bytes (fseeko fd (int sizeof_uint64) SEEK_SET) sizeof_uint64 of
        Inl f \<Rightarrow> Inl f
      | Inr (d_count, fd1) \<Rightarrow>
          if length d_count \<noteq> sizeof_uint64 then Inl (GError Failed_To_Read_Tile_Count)
          else
            (let tile_count = le_u64 d_count
             in if tile_count \<le> ucast tile_index then Inl (GError Tile_Index_Invalid)
                else
                  (case read_bytes
                          (fseeko fd1 (int (unat tile_index * sizeof_uint64)) SEEK_CUR)
                          sizeof_uint64 of
                     Inl f \<Rightarrow> Inl f
                   | Inr (d_off, fd2) \<Rightarrow>
                       if length d_off \<noteq> sizeof_uint64
                       then Inl (GError Failed_Reading_Tile_Offset)
                       else
                         (let offset = le_u64 d_off
                          in if ucast tile_index \<noteq> tile_count - 1 then
                               (case read_bytes fd2 sizeof_uint64 of
                                  Inl f \<Rightarrow> Inl f
                                | Inr (d_next, fd3) \<Rightarrow>
                                    if length d_next \<noteq> sizeof_uint64
                                    then Inl (GError Failed_To_Read_Follow_Up_Tile_Offset)
                                    else Inr (offset, le_u64 d_next - offset))
                             else
                               (let next_tile_offset =
                                      word_of_nat (ftello (fseeko fd2 0 SEEK_END))
                                in Inr (offset, next_tile_offset - offset))))))"

definition get_tile_file_location ::
  "filesystem \<Rightarrow> index_file_content \<Rightarrow> string \<Rightarrow> byte \<Rightarrow> 32 word \<Rightarrow>
     failure + (64 word \<times> 64 word)" where
  "get_tile_file_location fs file_info filename layer tile_index =
     (case openslide_fopen fs filename of
        None \<Rightarrow> Inl (GError Cannot_Open_File)
      | Some fd \<Rightarrow>
          if major_version file_info = 1
          then get_tile_infomation_version1 (minor_version file_info) fd layer tile_index
          else if major_version file_info = 2
          then get_tile_infomation_version2 (minor_version file_info) fd tile_index
          else Inl (GError Unsupported_Product_Version))"

text \<open>
  The locator writes through \<open>offset\<close> and \<open>size\<close>, and \<open>read_tile\<close> hands it the
  addresses of the two fields of a tile descriptor. The next three functions say what
  the two hold when the locator returns false, given what they held before. Version 1
  clears both on entry. Version 2 writes \<open>*offset\<close> with the read of the offset and
  \<open>*size\<close> only at its end; when the offset cannot be read whole, \<open>fread\<close> leaves an
  indeterminate value there, which \<open>partial\<close> stands for.
\<close>

definition get_tile_infomation_version1_written :: "64 word \<times> 64 word \<Rightarrow> 64 word \<times> 64 word" where
  "get_tile_infomation_version1_written held = (0, 0)"

definition get_tile_infomation_version2_written ::
  "stream \<Rightarrow> 32 word \<Rightarrow> 64 word \<Rightarrow> 64 word \<times> 64 word \<Rightarrow> 64 word \<times> 64 word" where
  "get_tile_infomation_version2_written fd tile_index partial held =
     (case read_bytes (fseeko fd (int sizeof_uint64) SEEK_SET) sizeof_uint64 of
        Inl f \<Rightarrow> held
      | Inr (d_count, fd1) \<Rightarrow>
          if length d_count \<noteq> sizeof_uint64 then held
          else if le_u64 d_count \<le> ucast tile_index then held
          else
            (case read_bytes
                    (fseeko fd1 (int (unat tile_index * sizeof_uint64)) SEEK_CUR)
                    sizeof_uint64 of
               Inl f \<Rightarrow> held
             | Inr (d_off, fd2) \<Rightarrow>
                 if length d_off \<noteq> sizeof_uint64 then (partial, snd held)
                 else (le_u64 d_off, snd held)))"

definition get_tile_file_location_written ::
  "filesystem \<Rightarrow> index_file_content \<Rightarrow> string \<Rightarrow> 32 word \<Rightarrow> 64 word \<Rightarrow>
     64 word \<times> 64 word \<Rightarrow> 64 word \<times> 64 word" where
  "get_tile_file_location_written fs file_info filename tile_index partial held =
     (case openslide_fopen fs filename of
        None \<Rightarrow> held
      | Some fd \<Rightarrow>
          if major_version file_info = 1 then get_tile_infomation_version1_written held
          else if major_version file_info = 2
          then get_tile_infomation_version2_written fd tile_index partial held
          else held)"

subsection \<open>Decoding a tile\<close>

text \<open>
  The image codecs are outside the two source files; the backend is given them. Each
  says whether it succeeded; the pixels it writes are not modelled. A decoder from a
  buffer is given the memory of the buffer and the length it is told.
\<close>

record codecs =
  jpeg_read_dimensions :: "string \<Rightarrow> 64 word \<Rightarrow> (32 word \<times> 32 word) option"
  jpeg_decode_buffer :: "byte list \<Rightarrow> 64 word \<Rightarrow> 64 word \<Rightarrow> 64 word \<Rightarrow> bool"
  jp2k_decode_buffer :: "64 word \<Rightarrow> 64 word \<Rightarrow> byte list \<Rightarrow> 64 word \<Rightarrow> bool"
  png_read :: "string \<Rightarrow> 64 word \<Rightarrow> 64 word \<Rightarrow> 64 word \<Rightarrow> bool"
  gdkpixbuf_read :: "string \<Rightarrow> 64 word \<Rightarrow> 64 word \<Rightarrow> 64 word \<Rightarrow> 64 word \<Rightarrow> bool"

text \<open>\<open>struct level\<close> with the fields of its \<open>base\<close> that the backend reads. \<open>lv_plane\<close> is
  the address of the level, which is the cache's plane cookie.\<close>

record level_tile_data =
  t_offset :: "64 word"
  t_size :: "64 word"
  t_width :: "64 word"
  t_height :: "64 word"

record level =
  lv_plane :: ptr
  base_w :: "64 word"
  base_h :: "64 word"
  base_tile_w :: "64 word"
  base_tile_h :: "64 word"
  lv_filename :: string
  lv_tiles :: "level_tile_data list"
  lv_layer :: byte
  tiles_across :: "64 word"
  tiles_down :: "64 word"

text \<open>\<open>MIN\<close> on signed 64-bit operands.\<close>

definition MIN_s64 :: "64 word \<Rightarrow> 64 word \<Rightarrow> 64 word" where
  "MIN_s64 a b = (if sint a < sint b then a else b)"

text \<open>
  Memory that the backend reads or hands on without having written it: the bytes behind
  the buffer of a file name (\<open>after_name\<close>, see \<open>_create_file_name_with_extension\<close>), the
  bytes of a fresh buffer of \<open>g_slice_alloc\<close> (\<open>heap_bytes\<close>), what a short \<open>fread\<close> leaves
  of an item (\<open>partial_item\<close>), and the locals \<open>tw\<close> and \<open>th\<close> of \<open>_get_tile_dimension\<close> as
  they are when the JPEG reader fails (\<open>stack_tw\<close>, \<open>stack_th\<close>).
\<close>

record residue =
  after_name :: "string \<Rightarrow> string"
  heap_bytes :: "nat \<Rightarrow> byte"
  partial_item :: "64 word"
  stack_tw :: "32 word"
  stack_th :: "32 word"

text \<open>\<open>_get_tile_dimension\<close>: whether it succeeded, and what it wrote to \<open>*width\<close> and
  \<open>*height\<close>. For JPEG it copies \<open>tw\<close> and \<open>th\<close> whether or not the reader succeeded.\<close>

definition get_tile_dimension ::
  "residue \<Rightarrow> codecs \<Rightarrow> index_file_content \<Rightarrow> level \<Rightarrow> 64 word \<Rightarrow> 64 word \<Rightarrow> 64 word \<Rightarrow>
     bool \<times> 64 word \<times> 64 word" where
  "get_tile_dimension rs cd file_info level_data tile_offset tile_col tile_row =
     (if format file_info = tile_format_jpeg then
        (case jpeg_read_dimensions cd (lv_filename level_data) tile_offset of
           None \<Rightarrow> (False, scast (stack_tw rs), scast (stack_th rs))
         | Some (tw, th) \<Rightarrow> (True, scast tw, scast th))
      else (True,
            MIN_s64 (base_tile_w level_data)
              (base_w level_data - tile_col * base_tile_w level_data),
            MIN_s64 (base_tile_h level_data)
              (base_h level_data - tile_row * base_tile_h level_data)))"

text \<open>The ten bytes of \<open>jpegHeader\<close>.\<close>

definition jpegHeader :: "byte list" where
  "jpegHeader = [0xff, 0xd8, 0xff, 0xe0, 0x00, 0x10, 0x4a, 0x46, 0x49, 0x46]"

text \<open>
  \<open>_get_tile_data_version1\<close>. \<open>g_slice_alloc\<close> does not clear the buffer: \<open>uninit\<close> gives
  what each of its bytes held before. The tile is read to the buffer from its tenth
  byte on, nothing is written to the first ten, and the decoder is told the length
  \<open>size\<close>.
\<close>

definition get_tile_data_version1 ::
  "filesystem \<Rightarrow> codecs \<Rightarrow> (nat \<Rightarrow> byte) \<Rightarrow> string \<Rightarrow> 64 word \<Rightarrow> 64 word \<Rightarrow>
     64 word \<Rightarrow> 64 word \<Rightarrow> failure + unit" where
  "get_tile_data_version1 fs cd uninit layer_filename offset sz width height =
     (case openslide_fopen fs layer_filename of
        None \<Rightarrow> Inl (GError Cannot_Open_File)
      | Some fd \<Rightarrow>
          (case read_bytes (fseeko fd (sint offset) SEEK_SET) (unat sz) of
             Inl f \<Rightarrow> Inl f
           | Inr (d, fd1) \<Rightarrow>
               if length d \<noteq> unat sz then Inl (GError Unable_To_Read_Required_Data)
               else
                 (let buffer = map uninit [0 ..< length jpegHeader] @ d
                  in if jpeg_decode_buffer cd buffer sz width height then Inr ()
                     else Inl (GError Failed_To_Decode_Data))))"

text \<open>\<open>_read_data\<close> and \<open>_get_tile_data_version2\<close>. For a size of 0 \<open>g_slice_alloc\<close>
  returns \<open>NULL\<close>, which \<open>_read_data\<close> takes for a failed allocation. The caller sets its
  own error over the one of \<open>_read_data\<close>; \<open>g_set_error\<close> keeps the first.\<close>

definition read_data :: "stream \<Rightarrow> nat \<Rightarrow> 64 word \<Rightarrow> failure + byte list" where
  "read_data fd sz offset =
     (if sz = 0 then Inl (GError Failed_To_Create_Result_Buffer)
      else
        (case read_bytes (fseeko fd (sint offset) SEEK_SET) sz of
           Inl f \<Rightarrow> Inl f
         | Inr (d, fd1) \<Rightarrow>
             if length d \<noteq> sz then Inl (GError Failed_To_Read_Data_From_File) else Inr d))"

definition get_tile_data_version2 ::
  "filesystem \<Rightarrow> codecs \<Rightarrow> index_file_content \<Rightarrow> string \<Rightarrow> 64 word \<Rightarrow> 64 word \<Rightarrow>
     64 word \<Rightarrow> 64 word \<Rightarrow> failure + unit" where
  "get_tile_data_version2 fs cd file_info layer_filename offset sz width height =
     (case openslide_fopen fs layer_filename of
        None \<Rightarrow> Inl (GError Cannot_Open_File)
      | Some fd \<Rightarrow>
          (let needs_prefetch = (format file_info = tile_format_jpeg \<or>
                                 format file_info = tile_format_jpeg2000)
           in case (if needs_prefetch then read_data fd (unat sz) offset else Inr []) of
                Inl f \<Rightarrow> Inl f
              | Inr buffer \<Rightarrow>
                  (let decode_result =
                     (if format file_info = tile_format_jpeg
                      then Some (jpeg_decode_buffer cd buffer sz width height)
                      else if format file_info = tile_format_jpeg2000
                      then Some (jp2k_decode_buffer cd width height buffer sz)
                      else if format file_info = tile_format_png
                      then Some (png_read cd layer_filename offset width height)
                      else if format file_info = tile_format_bmp
                      then Some (gdkpixbuf_read cd layer_filename offset sz width height)
                      else None)
                   in case decode_result of
                        None \<Rightarrow> Inl (GError Unknown_Tile_Data_Format)
                      | Some ok \<Rightarrow> if ok then Inr () else Inl (GError Codec_Error))))"

text \<open>
  The slide handle, as far as the backend reads it: the cache (through its binding),
  the index file content in \<open>osr->data\<close>, the property \<open>vsf.filename\<close>, and the error
  that \<open>openslide_get_error\<close> returns. \<open>openslide_get_error\<close> is declared in the public
  header and defined outside the two source files: what it returns is taken as given.
\<close>

record openslide =
  osr_cache :: cache_state
  osr_data :: index_file_content
  osr_vsf_filename :: "string option"
  osr_error :: "string option"

text \<open>\<open>_get_tile_data\<close>. \<open>Inr True\<close> is the result \<open>true\<close>; \<open>Inr False\<close> is the result
  \<open>false\<close> with no error set, which is what a tile of size 0 gives.\<close>

definition get_tile_data ::
  "residue \<Rightarrow> filesystem \<Rightarrow> codecs \<Rightarrow> openslide \<Rightarrow> level \<Rightarrow> 64 word \<Rightarrow>
     64 word \<Rightarrow> 64 word \<Rightarrow> failure + bool" where
  "get_tile_data rs fs cd osr level_data tile_index tile_width tile_height =
     (case osr_vsf_filename osr of
        None \<Rightarrow> Inl (Crash Invalid_Pointer)
      | Some filename \<Rightarrow>
          (case create_file_name_for_layer (after_name rs) (osr_data osr) filename
                  (lv_layer level_data) 0 of
             Inl f \<Rightarrow> Inl f
           | Inr layer_filename \<Rightarrow>
               (case get_tile_file_location fs (osr_data osr) layer_filename
                       (lv_layer level_data) (ucast tile_index) of
                  Inl f \<Rightarrow> Inl f
                | Inr (offset, sz) \<Rightarrow>
                    if sz > 0 then
                      (if major_version (osr_data osr) = 1 then
                         (case get_tile_data_version1 fs cd (heap_bytes rs) layer_filename
                                 offset sz tile_width tile_height of
                            Inl f \<Rightarrow> Inl f | Inr u \<Rightarrow> Inr True)
                       else if major_version (osr_data osr) = 2 then
                         (case get_tile_data_version2 fs cd (osr_data osr) layer_filename
                                 offset sz tile_width tile_height of
                            Inl f \<Rightarrow> Inl f | Inr u \<Rightarrow> Inr True)
                       else Inl (GError Unsupported_Product_Version))
                    else Inr False)))"

text \<open>
  \<open>read_tile\<close>. The result is what the function returns, the cache, and the tile
  descriptors of the level as the call leaves them: the locator and
  \<open>_get_tile_dimension\<close> write into the descriptor of the tile in place, also on the way
  to \<open>return false\<close>. \<open>tiledata_alloc\<close> is the address \<open>g_slice_alloc\<close> gives for the pixel
  buffer. Painting is not modelled. The value of \<open>_get_tile_data\<close> is dropped, as in the
  source; only the end of the process gets through.
\<close>

definition read_tile ::
  "residue \<Rightarrow> filesystem \<Rightarrow> codecs \<Rightarrow> ptr \<Rightarrow> openslide \<Rightarrow> level \<Rightarrow>
     64 word \<Rightarrow> 64 word \<Rightarrow> abort + (bool \<times> cache_state \<times> level_tile_data list)" where
  "read_tile rs fs cd tiledata_alloc osr level_data tile_col tile_row =
     (let tile_index = tile_row * tiles_across level_data + tile_col
      in case openslide_cache_get (lv_plane level_data) tile_col tile_row (osr_cache osr) of
           Inl a \<Rightarrow> Inl a
         | Inr (hit, c1) \<Rightarrow>
             if sint tile_index < 0 \<or> int (length (lv_tiles level_data)) \<le> sint tile_index
             then Inl Invalid_Pointer
             else
               (case (case hit of None \<Rightarrow> None
                      | Some (tiledata, entry) \<Rightarrow>
                          if tiledata = 0 then None else Some entry) of
                  Some cache_entry \<Rightarrow>
                    (case openslide_cache_entry_unref cache_entry c1 of
                       Inl a \<Rightarrow> Inl a
                     | Inr c2 \<Rightarrow> Inr (True, c2, lv_tiles level_data))
                | None \<Rightarrow>
                    (let tile_data = lv_tiles level_data ! nat (sint tile_index)
                     in case get_tile_file_location fs (osr_data osr) (lv_filename level_data)
                               (lv_layer level_data) (ucast tile_index) of
                          Inl (Crash a) \<Rightarrow> Inl a
                        | Inl (GError e) \<Rightarrow>
                            (case get_tile_file_location_written fs (osr_data osr)
                                    (lv_filename level_data) (ucast tile_index)
                                    (partial_item rs)
                                    (t_offset tile_data, t_size tile_data) of
                               (offset, sz) \<Rightarrow>
                                 Inr (False, c1,
                                      (lv_tiles level_data)
                                        [nat (sint tile_index) :=
                                           tile_data\<lparr>t_offset := offset, t_size := sz\<rparr>]))
                        | Inr (offset, sz) \<Rightarrow>
                            (case get_tile_dimension rs cd (osr_data osr) level_data offset
                                    tile_col tile_row of
                               (success, width, height) \<Rightarrow>
                                 (let tiles' = (lv_tiles level_data)
                                        [nat (sint tile_index) :=
                                           \<lparr>t_offset = offset, t_size = sz,
                                            t_width = width, t_height = height\<rparr>];
                                      buffer_size = width * height * 4
                                  in if \<not> success then Inr (False, c1, tiles')
                                     else
                                       (case get_tile_data rs fs cd osr level_data tile_index
                                               width height of
                                          Inl (Crash a) \<Rightarrow> Inl a
                                        | _ \<Rightarrow>
                                            if osr_error osr \<noteq> None
                                            then Inr (False, c1, tiles')
                                            else
                                              (case openslide_cache_put (lv_plane level_data)
                                                      tile_col tile_row tiledata_alloc
                                                      buffer_size c1 of
                                                 Inl a \<Rightarrow> Inl a
                                               | Inr (cache_entry, c2) \<Rightarrow>
                                                   (case openslide_cache_entry_unref
                                                           cache_entry c2 of
                                                      Inl a \<Rightarrow> Inl a
                                                    | Inr c3 \<Rightarrow>
                                                        Inr (True, c3, tiles')))))))))"

subsection \<open>Notions for stating the claims\<close>

text \<open>The \<open>n\<close> bytes that hold a number, lowest byte first.\<close>

primrec nat_bytes :: "nat \<Rightarrow> nat \<Rightarrow> byte list" where
  "nat_bytes 0 a = []"
| "nat_bytes (Suc n) a = word_of_nat (a mod 256) # nat_bytes n (a div 256)"

definition u32_bytes :: "32 word \<Rightarrow> byte list" where
  "u32_bytes w = nat_bytes 4 (unat w)"

definition u64_bytes :: "64 word \<Rightarrow> byte list" where
  "u64_bytes w = nat_bytes 8 (unat w)"


text \<open>The offset at which the header parser of major version 1 starts to read.\<close>

definition major1_seek :: "byte \<Rightarrow> nat" where
  "major1_seek minor = (if minor = 0 then 9 else if minor = 1 then 13 else 25)"


text \<open>The \<open>i\<close>-th entry of the tile directory of a major version 2 image file, which
  starts at byte 16.\<close>

definition offset_at :: "byte list \<Rightarrow> nat \<Rightarrow> 64 word" where
  "offset_at bs i = le_u64 (take 8 (drop (16 + 8 * i) bs))"


text \<open>A small image file of major version 1, the four bytes of one tile, for trying the
  decoder on.\<close>

definition tile_bytes_example :: "byte list" where
  "tile_bytes_example = [0x11, 0x22, 0x33, 0x44]"

definition fs_example :: filesystem where
  "fs_example = (\<lambda>name. if name = ''s-level0.img'' then Some tile_bytes_example else None)"

text \<open>A decoder that accepts exactly one buffer with one length.\<close>

definition codec_expecting :: "byte list \<Rightarrow> 64 word \<Rightarrow> codecs" where
  "codec_expecting buf len =
     \<lparr>jpeg_read_dimensions = (\<lambda>name offset. None),
      jpeg_decode_buffer = (\<lambda>b l w h. b = buf \<and> l = len),
      jp2k_decode_buffer = (\<lambda>w h b l. False),
      png_read = (\<lambda>name offset w h. False),
      gdkpixbuf_read = (\<lambda>name offset l w h. False)\<rparr>"

subsection \<open>Notions for the claim about detection\<close>

text \<open>How far into the index file \<open>_read_index_file_content\<close> reads: the four numbers of
  major version 1 end 16 bytes after the offset of the minor version, the packed header of
  major version 2 has 60 bytes, or 72 from minor version 1 on.\<close>

definition header_extent :: "byte \<Rightarrow> byte \<Rightarrow> nat" where
  "header_extent major minor =
     (if major = 1 then major1_seek minor + 16 else if minor = 0 then 60 else 72)"

text \<open>Every image file that the loops of \<open>vsf_detect\<close> ask for opens, under the name
  that \<open>_create_file_name_for_layer\<close> hands to \<open>fopen\<close>.\<close>

definition sidecars_present ::
  "(string \<Rightarrow> string) \<Rightarrow> filesystem \<Rightarrow> index_file_content \<Rightarrow> string \<Rightarrow> bool" where
  "sidecars_present after fs content filename \<longleftrightarrow>
     (\<forall>level fp.
        level < level_count content \<and>
        sint (lowest_focal_plane_index content) \<le> sint fp \<and>
        sint fp < sint (highest_focal_plane_index content) \<longrightarrow>
        (\<exists>name. create_file_name_for_layer after content filename level fp = Inr name \<and>
                fs name \<noteq> None))"

text \<open>The name of the image file of a level and a focal plane for major version 2, as
  the spec gives it: the file name without its last four characters, \<open>-level\<close>, the level
  in at least two digits, for a focal plane other than 0 its sign and its digits, and
  \<open>.img\<close>.\<close>

definition sidecar_name :: "string \<Rightarrow> byte \<Rightarrow> 32 word \<Rightarrow> string" where
  "sidecar_name filename level fp =
     take (length filename - 4) filename @ ''-level'' @
     (if unat level < 10 then ''0'' else []) @ decimal (unat level) @
     (if fp = 0 then []
      else (if sint fp < 0 then ''-'' else ''+'') @ decimal (nat \<bar>sint fp\<bar>)) @
     ''.img''"

text \<open>Memory in which a zero follows every file name at once.\<close>

definition terminated :: "string \<Rightarrow> string" where
  "terminated name = []"

text \<open>An index file of version 2.1 with one level and the focal planes from 0 up to,
  and not including, 1, beside its one image file.\<close>

definition index_bytes_example :: "byte list" where
  "index_bytes_example =
     [0x56, 0x53, 0x46, 0x32, 0x2E, 0x31] @ replicate 24 0x20 @ [1] @ replicate 29 0 @
     u32_bytes 0 @ u32_bytes 1 @ u32_bytes 0"

definition fs_detect_example :: filesystem where
  "fs_detect_example =
     (\<lambda>name. if name = ''a.vsf'' then Some index_bytes_example
             else if name = ''a-level00.img'' then Some [] else None)"

text \<open>The same index file with no image file beside it.\<close>

definition fs_detect_missing :: filesystem where
  "fs_detect_missing = (\<lambda>name. if name = ''a.vsf'' then Some index_bytes_example else None)"

text \<open>Two index files of 25 bytes. The first six bytes of \<open>a.vsf\<close> are \<open>X1X0XX\<close>, those
  of \<open>b.vsf\<close> are \<open>VSF1.0\<close>.\<close>

definition fs_detect_unmarked :: filesystem where
  "fs_detect_unmarked =
     (\<lambda>name. if name = ''a.vsf'' then Some ([0x58, 0x31, 0x58, 0x30, 0x58, 0x58] @ replicate 19 0)
             else if name = ''b.vsf'' then Some ([0x56, 0x53, 0x46, 0x31, 0x2E, 0x30] @ replicate 19 0)
             else None)"

subsection \<open>Two tiles for \<open>read_tile\<close>\<close>

text \<open>Two image files of major version 2 with one tile each. In the first the tile has
  the four bytes from offset 24 to the end of the file; in the second its offset is the
  length of the file, so that it has size 0. Beside them a slide of version 2.0 with PNG
  tiles, an empty cache of 32 MiB and no error, and its level 0 of one tile of 256 by 256
  pixels.\<close>

definition four_byte_tile_file :: "byte list" where
  "four_byte_tile_file = replicate 8 0 @ u64_bytes 1 @ u64_bytes 24 @ [0x11, 0x22, 0x33, 0x44]"

definition fs_four_byte_tile :: filesystem where
  "fs_four_byte_tile =
     (\<lambda>name. if name = ''t-level00.img'' then Some four_byte_tile_file else None)"

definition zero_tile_file :: "byte list" where
  "zero_tile_file = replicate 8 0 @ u64_bytes 1 @ u64_bytes 24"

definition fs_zero_tile :: filesystem where
  "fs_zero_tile = (\<lambda>name. if name = ''t-level00.img'' then Some zero_tile_file else None)"

definition osr_example :: openslide where
  "osr_example =
     \<lparr>osr_cache = openslide_cache_create 33554432,
      osr_data = blank_content\<lparr>major_version := 2, format := tile_format_png,
                               level_count := 1\<rparr>,
      osr_vsf_filename = Some ''t.vsf'',
      osr_error = None\<rparr>"

definition level_example :: level where
  "level_example =
     \<lparr>lv_plane = 1, base_w = 256, base_h = 256, base_tile_w = 256, base_tile_h = 256,
      lv_filename = ''t-level00.img'',
      lv_tiles = [\<lparr>t_offset = 0, t_size = 0, t_width = 0, t_height = 0\<rparr>],
      lv_layer = 0, tiles_across = 1, tiles_down = 1\<rparr>"

text \<open>Codecs that refuse every tile, and memory that holds zeros, with a zero behind
  every file name.\<close>

definition codecs_refusing :: codecs where
  "codecs_refusing =
     \<lparr>jpeg_read_dimensions = (\<lambda>name offset. None),
      jpeg_decode_buffer = (\<lambda>b l w h. False),
      jp2k_decode_buffer = (\<lambda>w h b l. False),
      png_read = (\<lambda>name offset w h. False),
      gdkpixbuf_read = (\<lambda>name offset l w h. False)\<rparr>"

definition zero_memory :: "nat \<Rightarrow> byte" where
  "zero_memory i = 0"

definition residue_zero :: residue where
  "residue_zero =
     \<lparr>after_name = terminated, heap_bytes = zero_memory, partial_item = 0,
      stack_tw = 0, stack_th = 0\<rparr>"

text \<open>The cache of the slide after one put of a buffer of 256 * 256 * 4 bytes at address
  500 for the tile (0, 0) of the level, the caller's reference released.\<close>

definition cache_holding_tile :: cache_state where
  "cache_holding_tile =
     \<lparr>c_list = [\<lparr>v_key = \<lparr>k_plane = 1, k_x = 0, k_y = 0\<rparr>, v_entry = 0\<rparr>],
      c_hashtable = [(\<lparr>k_plane = 1, k_x = 0, k_y = 0\<rparr>,
                      \<lparr>v_key = \<lparr>k_plane = 1, k_x = 0, k_y = 0\<rparr>, v_entry = 0\<rparr>)],
      c_refcount = 1, c_capacity = 33554432, c_total_size = 262144,
      c_warned_overlarge_entry = 0,
      entries = [0 \<mapsto> \<lparr>e_refcount = 1, e_data = 500, e_size = 262144\<rparr>],
      next_entry = 1, log_warnings = 0\<rparr>"

section \<open>Properties of the cache\<close>

subsection \<open>Preservation of the invariant\<close>

lemma sum_list_remove1_nat:
  "x \<in> set xs \<Longrightarrow> sum_list (map f (remove1 x xs)) = sum_list (map f xs) - (f x :: nat)"
  by (simp add: sum_list_map_remove1)

lemma entry_bytes_le_resident:
  "val \<in> set (c_list s) \<Longrightarrow> entry_bytes (entries s) val \<le> resident_size s"
  unfolding resident_size_def by (simp add: member_le_sum_list)

lemma resident_size_cong:
  assumes "c_list s' = c_list s" "\<And>val. val \<in> set (c_list s) \<Longrightarrow> entries s' (v_entry val) = entries s (v_entry val)"
  shows "resident_size s' = resident_size s"
  unfolding resident_size_def using assms
  by (auto simp: entry_bytes_def intro!: arg_cong [where f = sum_list] map_cong)

lemma distinct_map_remove1_neq:
  "distinct (map f xs) \<Longrightarrow> x \<in> set xs \<Longrightarrow> w \<in> set (remove1 x xs) \<Longrightarrow> f w \<noteq> f x"
proof
  assume d: "distinct (map f xs)" and x: "x \<in> set xs" and w: "w \<in> set (remove1 x xs)"
    and eq: "f w = f x"
  from d have "distinct xs" and inj: "inj_on f (set xs)"
    by (simp_all add: distinct_map)
  with w have "w \<in> set xs" "w \<noteq> x" by simp_all
  with inj x eq show False by (auto dest: inj_onD)
qed

lemma sum_list_map_eq:
  "(\<And>x. x \<in> set xs \<Longrightarrow> f x = g x) \<Longrightarrow> sum_list (map f xs) = sum_list (map g xs)"
  by (induction xs) auto

lemma destroy_ok:
  assumes d: "distinct (map v_entry (c_list s))"
    and v: "val \<in> set (c_list s)"
    and e: "entries s (v_entry val) = Some en"
    and le: "unat (e_size en) \<le> unat (c_total_size s)"
  shows "\<exists>s'. hash_destroy_value val s = Inr s' \<and>
           c_list s' = remove1 val (c_list s) \<and>
           c_hashtable s' = c_hashtable s \<and>
           c_capacity s' = c_capacity s \<and>
           next_entry s' = next_entry s \<and>
           c_warned_overlarge_entry s' = c_warned_overlarge_entry s \<and>
           log_warnings s' = log_warnings s \<and>
           unat (c_total_size s') = unat (c_total_size s) - unat (e_size en) \<and>
           (\<forall>p. p \<noteq> v_entry val \<longrightarrow> entries s' p = entries s p) \<and>
           (\<forall>p. entries s p = None \<longrightarrow> entries s' p = None) \<and>
           resident_size s' = resident_size s - unat (e_size en)"
proof -
  have b: "entry_bytes (entries s) val = unat (e_size en)"
    using e by (simp add: entry_bytes_def)
  have le': "e_size en \<le> c_total_size s"
    using le by (simp add: word_le_nat_alt)
  have sub: "unat (c_total_size s - e_size en) = unat (c_total_size s) - unat (e_size en)"
    using le' by (simp add: unat_sub)
  have other: "\<And>w. w \<in> set (remove1 val (c_list s)) \<Longrightarrow> v_entry w \<noteq> v_entry val"
    using d v by (rule distinct_map_remove1_neq)
  have rest: "sum_list (map (entry_bytes (entries s)) (remove1 val (c_list s))) =
                resident_size s - unat (e_size en)"
    using sum_list_remove1_nat [OF v, of "entry_bytes (entries s)"] b
    by (simp add: resident_size_def)
  obtain s' where s': "hash_destroy_value val s = Inr s'"
    and fields: "c_list s' = remove1 val (c_list s)" "c_hashtable s' = c_hashtable s"
      "c_capacity s' = c_capacity s" "next_entry s' = next_entry s"
      "c_warned_overlarge_entry s' = c_warned_overlarge_entry s"
      "log_warnings s' = log_warnings s"
      "c_total_size s' = c_total_size s - e_size en"
    and ent: "\<forall>p. p \<noteq> v_entry val \<longrightarrow> entries s' p = entries s p"
    and ent2: "\<forall>p. entries s p = None \<longrightarrow> entries s' p = None"
    using e le'
    by (cases "e_refcount en - 1 = 0")
       (auto simp: hash_destroy_value_def openslide_cache_entry_unref_def Let_def)
  have "resident_size s' = sum_list (map (entry_bytes (entries s)) (remove1 val (c_list s)))"
    unfolding resident_size_def fields
    by (rule sum_list_map_eq) (use other ent in \<open>auto simp: entry_bytes_def\<close>)
  then have "resident_size s' = resident_size s - unat (e_size en)"
    using rest by simp
  then show ?thesis
    using s' fields ent ent2 sub by auto
qed

lemma inv_map_of:
  assumes "cache_inv s" "val \<in> set (c_list s)"
  shows "map_of (c_hashtable s) (v_key val) = Some val"
proof -
  from assms obtain k where "(k, val) \<in> set (c_hashtable s)"
    by (auto simp: cache_inv_def)
  moreover from this assms have "v_key val = k"
    by (auto simp: cache_inv_def)
  ultimately show ?thesis
    using assms by (simp add: cache_inv_def)
qed

lemma inv_map_of_rev:
  assumes "cache_inv s" "map_of (c_hashtable s) key = Some val"
  shows "val \<in> set (c_list s) \<and> v_key val = key"
proof -
  from assms(2) have m: "(key, val) \<in> set (c_hashtable s)" by (rule map_of_SomeD)
  from assms(1) have S: "set (c_list s) = snd ` set (c_hashtable s)"
    and K: "\<forall>kv \<in> set (c_hashtable s). v_key (snd kv) = fst kv"
    by (simp_all add: cache_inv_def)
  from m have "snd (key, val) \<in> snd ` set (c_hashtable s)" by (rule imageI)
  moreover from K m have "v_key (snd (key, val)) = fst (key, val)" by (rule bspec)
  ultimately show ?thesis using S by simp
qed

lemma inv_values_delete:
  assumes "cache_inv s" "val \<in> set (c_list s)"
  shows "snd ` set (AList.delete (v_key val) (c_hashtable s)) = set (c_list s) - {val}"
proof -
  have K: "\<And>k v. (k, v) \<in> set (c_hashtable s) \<Longrightarrow> v_key v = k"
    using assms(1) by (auto simp: cache_inv_def)
  have S: "set (c_list s) = snd ` set (c_hashtable s)"
    using assms(1) by (simp add: cache_inv_def)
  show ?thesis
  proof (intro set_eqI iffI)
    fix w assume "w \<in> snd ` set (AList.delete (v_key val) (c_hashtable s))"
    then obtain k where kw: "(k, w) \<in> set (c_hashtable s)" "k \<noteq> v_key val"
      by (auto simp: AList.delete_eq)
    then have "v_key w \<noteq> v_key val" using K by auto
    then have "w \<noteq> val" by auto
    with kw S show "w \<in> set (c_list s) - {val}" by force
  next
    fix w assume "w \<in> set (c_list s) - {val}"
    then obtain k where kw: "(k, w) \<in> set (c_hashtable s)" "w \<noteq> val"
      using S by auto
    have "k \<noteq> v_key val"
    proof
      assume "k = v_key val"
      then have "map_of (c_hashtable s) (v_key val) = Some w"
        using kw assms(1) by (simp add: cache_inv_def)
      with inv_map_of [OF assms] kw show False by simp
    qed
    with kw show "w \<in> snd ` set (AList.delete (v_key val) (c_hashtable s))"
      by (force simp: AList.delete_eq)
  qed
qed

lemma inv_entries:
  assumes "cache_inv s" "val \<in> set (c_list s)"
  obtains en where "entries s (v_entry val) = Some en"
proof -
  from assms have "entries s (v_entry val) \<noteq> None"
    unfolding cache_inv_def by blast
  then show thesis using that by auto
qed

lemma inv_cap: "cache_inv s \<Longrightarrow> unat (c_total_size s) \<le> unat (c_capacity s)"
  by (simp add: cache_inv_def word_le_nat_alt)

lemma remove_ok:
  assumes inv: "cache_inv s" and v: "val \<in> set (c_list s)"
  shows "\<exists>s' en. entries s (v_entry val) = Some en \<and>
           g_hash_table_remove (v_key val) s = Inr (True, s') \<and>
           cache_inv s' \<and>
           c_list s' = remove1 val (c_list s) \<and>
           c_capacity s' = c_capacity s \<and>
           next_entry s' = next_entry s \<and>
           c_warned_overlarge_entry s' = c_warned_overlarge_entry s \<and>
           log_warnings s' = log_warnings s \<and>
           unat (c_total_size s') = unat (c_total_size s) - unat (e_size en) \<and>
           unat (e_size en) \<le> unat (c_total_size s) \<and>
           (\<forall>p. p \<noteq> v_entry val \<longrightarrow> entries s' p = entries s p)"
proof -
  from inv v obtain en where e: "entries s (v_entry val) = Some en"
    by (rule inv_entries)
  have m: "map_of (c_hashtable s) (v_key val) = Some val"
    by (rule inv_map_of [OF inv v])
  define s0 where "s0 = s\<lparr>c_hashtable := AList.delete (v_key val) (c_hashtable s)\<rparr>"
  have d: "distinct (map v_entry (c_list s))" and dl: "distinct (c_list s)"
    and inj: "inj_on v_entry (set (c_list s))"
    using inv by (auto simp: cache_inv_def distinct_map)
  have r0: "resident_size s0 = resident_size s"
    by (rule resident_size_cong) (simp_all add: s0_def)
  have rs: "resident_size s = unat (c_total_size s)"
    using inv by (simp add: cache_inv_def)
  have le: "unat (e_size en) \<le> unat (c_total_size s)"
    using entry_bytes_le_resident [OF v] e rs by (simp add: entry_bytes_def)
  then have le0: "unat (e_size en) \<le> unat (c_total_size s0)"
    by (simp add: s0_def)
  have d0: "distinct (map v_entry (c_list s0))" and v0: "val \<in> set (c_list s0)"
    and e0: "entries s0 (v_entry val) = Some en"
    using d v e by (simp_all add: s0_def)
  from destroy_ok [OF d0 v0 e0 le0]
  obtain s' where s': "hash_destroy_value val s0 = Inr s'"
    and f0: "c_list s' = remove1 val (c_list s0)" "c_hashtable s' = c_hashtable s0"
      "c_capacity s' = c_capacity s0" "next_entry s' = next_entry s0"
      "c_warned_overlarge_entry s' = c_warned_overlarge_entry s0"
      "log_warnings s' = log_warnings s0"
      "unat (c_total_size s') = unat (c_total_size s0) - unat (e_size en)"
    and ent0: "\<forall>p. p \<noteq> v_entry val \<longrightarrow> entries s' p = entries s0 p"
    and ent20: "\<forall>p. entries s0 p = None \<longrightarrow> entries s' p = None"
    and res0: "resident_size s' = resident_size s0 - unat (e_size en)"
    by blast
  have f: "c_list s' = remove1 val (c_list s)" "c_hashtable s' = c_hashtable s0"
      "c_capacity s' = c_capacity s" "next_entry s' = next_entry s"
      "c_warned_overlarge_entry s' = c_warned_overlarge_entry s"
      "log_warnings s' = log_warnings s"
      "unat (c_total_size s') = unat (c_total_size s) - unat (e_size en)"
    and ent: "\<forall>p. p \<noteq> v_entry val \<longrightarrow> entries s' p = entries s p"
    and ent2: "\<forall>p. entries s p = None \<longrightarrow> entries s' p = None"
    using f0 ent0 ent20 by (simp_all add: s0_def)
  have res: "resident_size s' = unat (c_total_size s')"
    using res0 r0 rs f(7) by simp
  have g: "g_hash_table_remove (v_key val) s = Inr (True, s')"
    using m s' by (simp add: g_hash_table_remove_def s0_def)
  have other: "\<And>w. w \<in> set (remove1 val (c_list s)) \<Longrightarrow> v_entry w \<noteq> v_entry val"
    using d v by (rule distinct_map_remove1_neq)
  have i1: "distinct (map fst (c_hashtable s'))"
    using inv by (simp add: f s0_def cache_inv_def distinct_delete)
  have i2: "set (c_list s') = snd ` set (c_hashtable s')"
    using inv_values_delete [OF inv v] dl by (simp add: f s0_def)
  have i3: "\<forall>kv \<in> set (c_hashtable s'). v_key (snd kv) = fst kv"
    using inv by (auto simp: f s0_def cache_inv_def AList.delete_eq)
  have i4: "distinct (map v_entry (c_list s'))"
    using dl inj by (auto simp: f distinct_map intro: inj_on_subset)
  have i5: "\<forall>w \<in> set (c_list s'). entries s' (v_entry w) \<noteq> None"
  proof
    fix w assume w: "w \<in> set (c_list s')"
    then have "v_entry w \<noteq> v_entry val" using other by (simp add: f)
    moreover from w dl have "w \<in> set (c_list s)" by (simp add: f)
    ultimately show "entries s' (v_entry w) \<noteq> None"
      using ent inv by (simp add: cache_inv_def)
  qed
  have i6: "\<forall>p. next_entry s' \<le> p \<longrightarrow> entries s' p = None"
    using inv ent2 by (simp add: f cache_inv_def)
  have "unat (c_total_size s') \<le> unat (c_capacity s')"
    using inv_cap [OF inv] f by simp
  then have i8: "c_total_size s' \<le> c_capacity s'"
    by (simp add: word_le_nat_alt)
  have "cache_inv s'"
    unfolding cache_inv_def by (intro conjI i1 i2 i3 i4 i5 i6 res i8)
  then show ?thesis
    by (intro exI [of _ s'] exI [of _ en] conjI e g f le ent)
qed

lemma remove1_last_butlast:
  "distinct xs \<Longrightarrow> xs \<noteq> [] \<Longrightarrow> remove1 (last xs) xs = butlast xs"
  by (induction xs) (auto split: if_splits)

lemma evict_loop_ok:
  "cache_inv s \<Longrightarrow> unat sz = unat (c_total_size s) + unat inc \<Longrightarrow>
   inc \<le> c_capacity s \<Longrightarrow> target = c_capacity s \<Longrightarrow>
   \<exists>s' n. evict_loop sz target s = Inr s' \<and> cache_inv s' \<and>
      unat (c_total_size s') + unat inc \<le> unat (c_capacity s) \<and>
      c_capacity s' = c_capacity s \<and> next_entry s' = next_entry s \<and>
      c_warned_overlarge_entry s' = c_warned_overlarge_entry s \<and>
      log_warnings s' = log_warnings s \<and>
      c_list s' = take n (c_list s) \<and>
      (\<forall>p. p \<notin> v_entry ` set (c_list s) \<longrightarrow> entries s' p = entries s p) \<and>
      n \<le> length (c_list s) \<and>
      (n < length (c_list s) \<longrightarrow>
         unat (c_capacity s) <
           sum_list (map (entry_bytes (entries s)) (take (Suc n) (c_list s))) + unat inc)"
proof (induction sz target s rule: evict_loop.induct)
  case (1 sz target s)
  note inv = \<open>cache_inv s\<close> and szeq = \<open>unat sz = unat (c_total_size s) + unat inc\<close>
    and tgt = \<open>target = c_capacity s\<close>
  show ?case
  proof (cases "target < sz")
    case False
    then have "evict_loop sz target s = Inr s" by (subst evict_loop.simps) simp
    moreover from False szeq tgt
    have "unat (c_total_size s) + unat inc \<le> unat (c_capacity s)"
      by (simp add: word_less_nat_alt)
    moreover have "c_list s = take (length (c_list s)) (c_list s)" by simp
    ultimately show ?thesis using inv
      by (intro exI [of _ s] exI [of _ "length (c_list s)"]) simp
  next
    case True
    show ?thesis
    proof (cases "c_list s")
      case Nil
      then have "evict_loop sz target s = Inr s" using True by (subst evict_loop.simps) simp
      moreover from Nil inv have "unat (c_total_size s) = 0"
        by (simp add: cache_inv_def resident_size_def)
      with \<open>inc \<le> c_capacity s\<close>
      have "unat (c_total_size s) + unat inc \<le> unat (c_capacity s)"
        by (simp add: word_le_nat_alt)
      moreover have "c_list s = take 0 (c_list s)" using Nil by simp
      ultimately show ?thesis using inv Nil
        by (intro exI [of _ s] exI [of _ 0]) simp
    next
      case (Cons a l)
      define val where "val = last (c_list s)"
      have v: "val \<in> set (c_list s)" using Cons by (simp add: val_def)
      have dl: "distinct (c_list s)" using inv by (simp add: cache_inv_def distinct_map)
      from remove_ok [OF inv v] obtain s1 en where
        e: "entries s (v_entry val) = Some en"
        and g: "g_hash_table_remove (v_key val) s = Inr (True, s1)"
        and inv1: "cache_inv s1"
        and l1: "c_list s1 = remove1 val (c_list s)"
        and f1: "c_capacity s1 = c_capacity s" "next_entry s1 = next_entry s"
          "c_warned_overlarge_entry s1 = c_warned_overlarge_entry s"
          "log_warnings s1 = log_warnings s"
        and t1: "unat (c_total_size s1) = unat (c_total_size s) - unat (e_size en)"
        and le: "unat (e_size en) \<le> unat (c_total_size s)"
        and ent: "\<forall>p. p \<noteq> v_entry val \<longrightarrow> entries s1 p = entries s p"
        by blast
      have ne: "c_list s \<noteq> []" using Cons by simp
      have bl: "c_list s1 = butlast (c_list s)"
        using l1 remove1_last_butlast [OF dl ne] by (simp add: val_def)
      have "e_size en \<le> sz"
        using le szeq by (simp add: word_le_nat_alt)
      then have sz1: "unat (sz - e_size en) = unat (c_total_size s1) + unat inc"
        using le szeq t1 by (simp add: unat_sub)
      have val': "last (a # l) = val" using Cons by (simp add: val_def)
      have step: "evict_loop sz target s = evict_loop (sz - e_size en) target s1"
        by (subst evict_loop.simps) (simp add: True Cons val' e g Let_def del: last.simps)
      from "1.IH" [OF True Cons val_def refl e g refl _ inv1 sz1]
        \<open>inc \<le> c_capacity s\<close> tgt f1
      obtain s' n where r: "evict_loop (sz - e_size en) target s1 = Inr s'"
        "cache_inv s'" "unat (c_total_size s') + unat inc \<le> unat (c_capacity s1)"
        "c_capacity s' = c_capacity s1" "next_entry s' = next_entry s1"
        "c_warned_overlarge_entry s' = c_warned_overlarge_entry s1"
        "log_warnings s' = log_warnings s1"
        "c_list s' = take n (c_list s1)"
        "\<forall>p. p \<notin> v_entry ` set (c_list s1) \<longrightarrow> entries s' p = entries s1 p"
        "n \<le> length (c_list s1)"
        "n < length (c_list s1) \<longrightarrow>
           unat (c_capacity s1) <
             sum_list (map (entry_bytes (entries s1)) (take (Suc n) (c_list s1))) + unat inc"
        by auto
      have nle: "n \<le> length (c_list s) - 1" using r(10) bl by simp
      have tk: "c_list s' = take n (c_list s)"
        using r(8) bl nle by (simp add: butlast_conv_take min_absorb1)
      have d: "distinct (map v_entry (c_list s))" using inv by (simp add: cache_inv_def)
      have mini: "unat (c_capacity s) <
          sum_list (map (entry_bytes (entries s)) (take (Suc n) (c_list s))) + unat inc"
      proof (cases "n < length (c_list s1)")
        case False
        with nle bl have "Suc n = length (c_list s)" using ne by simp
        then have "sum_list (map (entry_bytes (entries s)) (take (Suc n) (c_list s))) =
                     resident_size s"
          by (simp add: resident_size_def)
        moreover have "resident_size s = unat (c_total_size s)"
          using inv by (simp add: cache_inv_def)
        moreover have "unat target < unat sz" using True by (simp add: word_less_nat_alt)
        ultimately show ?thesis using szeq tgt by simp
      next
        case lt: True
        then have "take (Suc n) (c_list s1) = take (Suc n) (c_list s)"
          using bl by (simp add: butlast_conv_take min_absorb1)
        moreover have "sum_list (map (entry_bytes (entries s1)) (take (Suc n) (c_list s1))) =
            sum_list (map (entry_bytes (entries s)) (take (Suc n) (c_list s1)))"
        proof (rule sum_list_map_eq)
          fix w assume "w \<in> set (take (Suc n) (c_list s1))"
          then have "w \<in> set (remove1 val (c_list s))" using l1 by (auto dest: in_set_takeD)
          then have "v_entry w \<noteq> v_entry val" by (rule distinct_map_remove1_neq [OF d v])
          then show "entry_bytes (entries s1) w = entry_bytes (entries s) w"
            using ent by (simp add: entry_bytes_def)
        qed
        ultimately show ?thesis using r(11) lt f1 by simp
      qed
      have sub: "set (c_list s1) \<subseteq> set (c_list s)"
        using l1 set_remove1_subset [of val "c_list s"] by simp
      have ents: "\<forall>p. p \<notin> v_entry ` set (c_list s) \<longrightarrow> entries s' p = entries s p"
      proof (intro allI impI)
        fix p assume p: "p \<notin> v_entry ` set (c_list s)"
        then have "p \<notin> v_entry ` set (c_list s1)" using sub by auto
        moreover from p v have "p \<noteq> v_entry val" by auto
        ultimately show "entries s' p = entries s p" using r(9) ent by simp
      qed
      show ?thesis
        apply (rule exI [of _ s'], rule exI [of _ n])
        using step r(1-7) f1 tk ents nle mini by simp
    qed
  qed
qed

lemma set_update_distinct:
  "distinct (map fst al) \<Longrightarrow>
     set (AList.update k v al) = insert (k, v) (set (AList.delete k al))"
  by (induction al) (auto simp: AList.delete_eq rev_image_eqI)

lemma inv_frame:
  assumes inv: "cache_inv s"
    and l: "c_list s' = c_list s" and h: "c_hashtable s' = c_hashtable s"
    and t: "c_total_size s' = c_total_size s" and c: "c_capacity s' = c_capacity s"
    and exs: "\<And>val. val \<in> set (c_list s) \<Longrightarrow> entries s' (v_entry val) \<noteq> None"
    and byt: "\<And>val. val \<in> set (c_list s) \<Longrightarrow> entry_bytes (entries s') val = entry_bytes (entries s) val"
    and nx: "\<And>p. next_entry s' \<le> p \<Longrightarrow> entries s' p = None"
  shows "cache_inv s'"
proof -
  have "resident_size s' = resident_size s"
    unfolding resident_size_def l by (rule sum_list_map_eq) (rule byt)
  then show ?thesis
    using inv exs nx unfolding cache_inv_def l h t c by simp
qed

lemma inv_fresh:
  assumes "cache_inv s"
  shows "next_entry s \<notin> v_entry ` set (c_list s)"
proof
  assume "next_entry s \<in> v_entry ` set (c_list s)"
  then obtain val where v: "val \<in> set (c_list s)" "v_entry val = next_entry s" by auto
  from inv_entries [OF assms v(1)] obtain en where "entries s (v_entry val) = Some en" .
  moreover from assms have "entries s (next_entry s) = None"
    by (simp add: cache_inv_def)
  ultimately show False using v(2) by simp
qed

lemma alloc_inv:
  assumes inv: "cache_inv s"
  shows "cache_inv (s\<lparr>entries := (entries s)(next_entry s \<mapsto> en), next_entry := Suc (next_entry s)\<rparr>)"
proof (rule inv_frame [OF inv])
  fix val assume v: "val \<in> set (c_list s)"
  with inv_fresh [OF inv] have ne: "v_entry val \<noteq> next_entry s" by (metis imageI)
  from inv_entries [OF inv v] obtain en' where "entries s (v_entry val) = Some en'" .
  with ne show "entries (s\<lparr>entries := (entries s)(next_entry s \<mapsto> en), next_entry := Suc (next_entry s)\<rparr>) (v_entry val) \<noteq> None"
    by simp
  from ne show "entry_bytes (entries (s\<lparr>entries := (entries s)(next_entry s \<mapsto> en), next_entry := Suc (next_entry s)\<rparr>)) val = entry_bytes (entries s) val"
    by (simp add: entry_bytes_def)
next
  fix p assume "next_entry (s\<lparr>entries := (entries s)(next_entry s \<mapsto> en), next_entry := Suc (next_entry s)\<rparr>) \<le> p"
  then show "entries (s\<lparr>entries := (entries s)(next_entry s \<mapsto> en), next_entry := Suc (next_entry s)\<rparr>) p = None"
    using inv by (simp add: cache_inv_def)
qed simp_all

lemma inc_inv:
  assumes inv: "cache_inv s" and e: "entries s entry = Some en"
  shows "\<exists>s'. atomic_int_inc entry s = Inr s' \<and> cache_inv s' \<and>
           s' = s\<lparr>entries := (entries s)(entry \<mapsto> en\<lparr>e_refcount := e_refcount en + 1\<rparr>)\<rparr>"
proof -
  define s' where "s' = s\<lparr>entries := (entries s)(entry \<mapsto> en\<lparr>e_refcount := e_refcount en + 1\<rparr>)\<rparr>"
  have a: "atomic_int_inc entry s = Inr s'"
    using e by (simp add: atomic_int_inc_def s'_def)
  have "cache_inv s'"
  proof (rule inv_frame [OF inv])
    fix val assume v: "val \<in> set (c_list s)"
    from inv_entries [OF inv v] obtain en' where "entries s (v_entry val) = Some en'" .
    then show "entries s' (v_entry val) \<noteq> None" by (simp add: s'_def)
    show "entry_bytes (entries s') val = entry_bytes (entries s) val"
      using e by (simp add: entry_bytes_def s'_def)
  next
    fix p assume "next_entry s' \<le> p"
    then have "entries s p = None" using inv by (simp add: cache_inv_def s'_def)
    with e show "entries s' p = None" by (auto simp: s'_def)
  qed (simp_all add: s'_def)
  with a show ?thesis by (simp add: s'_def)
qed

lemma insert_ok:
  assumes inv: "cache_inv s" and e: "entries s e = Some en"
    and fresh: "e \<notin> v_entry ` set (c_list s)"
    and fit: "unat (c_total_size s) + unat (e_size en) \<le> unat (c_capacity s)"
    and val: "val = \<lparr>v_key = key, v_entry = e\<rparr>"
  shows "\<exists>s4. g_hash_table_replace key val (s\<lparr>c_list := val # c_list s\<rparr>) = Inr s4 \<and>
      cache_inv (s4\<lparr>c_total_size := c_total_size s4 + e_size en\<rparr>) \<and>
      entries s4 e = Some en \<and>
      c_capacity s4 = c_capacity s \<and> next_entry s4 = next_entry s \<and>
      c_warned_overlarge_entry s4 = c_warned_overlarge_entry s \<and>
      log_warnings s4 = log_warnings s \<and>
      c_list s4 = val # (case map_of (c_hashtable s) key of None \<Rightarrow> c_list s
                          | Some old \<Rightarrow> remove1 old (c_list s))"
proof -
  define rest where "rest = (case map_of (c_hashtable s) key of None \<Rightarrow> c_list s
                          | Some old \<Rightarrow> remove1 old (c_list s))"
  define s3 where "s3 = s\<lparr>c_list := val # c_list s,
                          c_hashtable := AList.update key val (c_hashtable s)\<rparr>"
  have dk: "distinct (map fst (c_hashtable s))"
    and S: "set (c_list s) = snd ` set (c_hashtable s)"
    and K: "\<forall>kv \<in> set (c_hashtable s). v_key (snd kv) = fst kv"
    and d: "distinct (map v_entry (c_list s))"
    and nx: "\<forall>p. next_entry s \<le> p \<longrightarrow> entries s p = None"
    and rs: "resident_size s = unat (c_total_size s)"
    using inv by (simp_all add: cache_inv_def)
  have dl: "distinct (c_list s)" and inj: "inj_on v_entry (set (c_list s))"
    using d by (simp_all add: distinct_map)
  have ve: "v_entry val = e" and vk: "v_key val = key" by (simp_all add: val)
  have vnew: "val \<notin> set (c_list s)" using fresh ve by (metis imageI)
  have d3: "distinct (map v_entry (val # c_list s))"
    using d fresh ve by simp
  have r3: "resident_size s3 = unat (e_size en) + unat (c_total_size s)"
    using e ve rs by (simp add: resident_size_def s3_def entry_bytes_def)
  have "\<exists>s4. g_hash_table_replace key val (s\<lparr>c_list := val # c_list s\<rparr>) = Inr s4 \<and>
          c_list s4 = val # rest \<and> c_hashtable s4 = AList.update key val (c_hashtable s) \<and>
          set rest = snd ` set (AList.delete key (c_hashtable s)) \<and>
          (\<forall>w \<in> set rest. w \<in> set (c_list s) \<and> entries s4 (v_entry w) = entries s (v_entry w)) \<and>
          distinct (map v_entry rest) \<and>
          entries s4 e = Some en \<and>
          (\<forall>p. entries s p = None \<longrightarrow> entries s4 p = None) \<and>
          resident_size s4 = unat (e_size en) + unat (c_total_size s4) \<and>
          unat (c_total_size s4) \<le> unat (c_total_size s) \<and>
          c_capacity s4 = c_capacity s \<and> next_entry s4 = next_entry s \<and>
          c_warned_overlarge_entry s4 = c_warned_overlarge_entry s \<and>
          log_warnings s4 = log_warnings s"
  proof (cases "map_of (c_hashtable s) key")
    case None
    then have "key \<notin> fst ` set (c_hashtable s)" by (simp add: map_of_eq_None_iff)
    then have del: "AList.delete key (c_hashtable s) = c_hashtable s" by simp
    have g: "g_hash_table_replace key val (s\<lparr>c_list := val # c_list s\<rparr>) = Inr s3"
      using None by (simp add: g_hash_table_replace_def s3_def)
    have rest: "rest = c_list s" using None by (simp add: rest_def)
    show ?thesis
      apply (rule exI [of _ s3])
      using g r3 d S e by (simp add: rest del) (simp add: s3_def)
  next
    case (Some old)
    from inv_map_of_rev [OF inv Some] have o: "old \<in> set (c_list s)" "v_key old = key"
      by simp_all
    from inv_entries [OF inv o(1)] obtain eo where eo: "entries s (v_entry old) = Some eo" .
    have le: "unat (e_size eo) \<le> unat (c_total_size s)"
      using entry_bytes_le_resident [OF o(1)] eo rs by (simp add: entry_bytes_def)
    have oe: "v_entry old \<noteq> e" using fresh o(1) by (metis imageI)
    have ov: "old \<noteq> val" using oe ve by auto
    have d0: "distinct (map v_entry (c_list s3))" using d3 by (simp add: s3_def)
    have v0: "old \<in> set (c_list s3)" using o(1) by (simp add: s3_def)
    have e0: "entries s3 (v_entry old) = Some eo" using eo by (simp add: s3_def)
    have le0: "unat (e_size eo) \<le> unat (c_total_size s3)" using le by (simp add: s3_def)
    from destroy_ok [OF d0 v0 e0 le0]
    obtain s4 where s4: "hash_destroy_value old s3 = Inr s4"
      and f0: "c_list s4 = remove1 old (c_list s3)" "c_hashtable s4 = c_hashtable s3"
        "c_capacity s4 = c_capacity s3" "next_entry s4 = next_entry s3"
        "c_warned_overlarge_entry s4 = c_warned_overlarge_entry s3"
        "log_warnings s4 = log_warnings s3"
        "unat (c_total_size s4) = unat (c_total_size s3) - unat (e_size eo)"
      and ent0: "\<forall>p. p \<noteq> v_entry old \<longrightarrow> entries s4 p = entries s3 p"
      and ent20: "\<forall>p. entries s3 p = None \<longrightarrow> entries s4 p = None"
      and res0: "resident_size s4 = resident_size s3 - unat (e_size eo)"
      by blast
    have g: "g_hash_table_replace key val (s\<lparr>c_list := val # c_list s\<rparr>) = Inr s4"
      using Some s4 by (simp add: g_hash_table_replace_def s3_def)
    have rest: "rest = remove1 old (c_list s)" using Some by (simp add: rest_def)
    have l4: "c_list s4 = val # rest"
      using f0(1) ov by (simp add: s3_def rest)
    have c: "set rest = snd ` set (AList.delete key (c_hashtable s))"
      using inv_values_delete [OF inv o(1)] dl by (simp add: rest o(2))
    have w: "\<forall>w \<in> set rest. w \<in> set (c_list s) \<and> entries s4 (v_entry w) = entries s (v_entry w)"
    proof
      fix w assume w: "w \<in> set rest"
      then have "v_entry w \<noteq> v_entry old"
        unfolding rest by (rule distinct_map_remove1_neq [OF d o(1)])
      moreover from w dl have "w \<in> set (c_list s)" by (simp add: rest)
      ultimately show "w \<in> set (c_list s) \<and> entries s4 (v_entry w) = entries s (v_entry w)"
        using ent0 by (simp add: s3_def)
    qed
    have dr: "distinct (map v_entry rest)"
      using dl inj by (auto simp: rest distinct_map intro: inj_on_subset)
    have e4: "entries s4 e = Some en" using ent0 oe e by (simp add: s3_def)
    have n4: "\<forall>p. entries s p = None \<longrightarrow> entries s4 p = None"
      using ent20 by (simp add: s3_def)
    have t4: "unat (c_total_size s4) = unat (c_total_size s) - unat (e_size eo)"
      using f0(7) by (simp add: s3_def)
    have r4: "resident_size s4 = unat (e_size en) + unat (c_total_size s4)"
      using res0 r3 t4 le by simp
    show ?thesis
      apply (rule exI [of _ s4])
      using g l4 c w dr e4 n4 r4 t4 f0 by (simp add: s3_def)
  qed
  then obtain s4 where g: "g_hash_table_replace key val (s\<lparr>c_list := val # c_list s\<rparr>) = Inr s4"
    and l4: "c_list s4 = val # rest"
    and h4: "c_hashtable s4 = AList.update key val (c_hashtable s)"
    and c: "set rest = snd ` set (AList.delete key (c_hashtable s))"
    and w: "\<forall>w \<in> set rest. w \<in> set (c_list s) \<and> entries s4 (v_entry w) = entries s (v_entry w)"
    and dr: "distinct (map v_entry rest)"
    and e4: "entries s4 e = Some en"
    and n4: "\<forall>p. entries s p = None \<longrightarrow> entries s4 p = None"
    and r4: "resident_size s4 = unat (e_size en) + unat (c_total_size s4)"
    and t4: "unat (c_total_size s4) \<le> unat (c_total_size s)"
    and f4: "c_capacity s4 = c_capacity s" "next_entry s4 = next_entry s"
      "c_warned_overlarge_entry s4 = c_warned_overlarge_entry s"
      "log_warnings s4 = log_warnings s"
    by blast
  define s5 where "s5 = s4\<lparr>c_total_size := c_total_size s4 + e_size en\<rparr>"
  have bound: "unat (c_total_size s4) + unat (e_size en) \<le> unat (c_capacity s)"
    using t4 fit by simp
  have "unat (c_capacity s) < 2 ^ 64" using unsigned_less [of "c_capacity s"] by simp
  with bound have add: "unat (c_total_size s4 + e_size en) = unat (c_total_size s4) + unat (e_size en)"
    by (simp add: unat_add_lem [THEN iffD1])
  have i1: "distinct (map fst (c_hashtable s5))"
    using dk by (simp add: s5_def h4 distinct_update)
  have i2: "set (c_list s5) = snd ` set (c_hashtable s5)"
    using c by (simp add: s5_def h4 l4 set_update_distinct [OF dk])
  have i3: "\<forall>kv \<in> set (c_hashtable s5). v_key (snd kv) = fst kv"
    using K vk by (auto simp: s5_def h4 set_update_distinct [OF dk] AList.delete_eq)
  have i4: "distinct (map v_entry (c_list s5))"
    using dr w fresh ve by (auto simp: s5_def l4)
  have i5: "\<forall>w \<in> set (c_list s5). entries s5 (v_entry w) \<noteq> None"
  proof
    fix x assume "x \<in> set (c_list s5)"
    then consider "x = val" | "x \<in> set rest" by (auto simp: s5_def l4)
    then show "entries s5 (v_entry x) \<noteq> None"
    proof cases
      case 1 then show ?thesis using e4 ve by (simp add: s5_def)
    next
      case 2
      with w have "x \<in> set (c_list s)" "entries s4 (v_entry x) = entries s (v_entry x)"
        by simp_all
      moreover from inv_entries [OF inv this(1)] obtain ex where "entries s (v_entry x) = Some ex" .
      ultimately show ?thesis by (simp add: s5_def)
    qed
  qed
  have i6: "\<forall>p. next_entry s5 \<le> p \<longrightarrow> entries s5 p = None"
    using nx n4 by (simp add: s5_def f4)
  have "resident_size s5 = resident_size s4"
    by (rule resident_size_cong) (simp_all add: s5_def)
  then have i7: "resident_size s5 = unat (c_total_size s5)"
    using r4 add by (simp add: s5_def)
  have i8: "c_total_size s5 \<le> c_capacity s5"
    using bound add by (simp add: s5_def f4 word_le_nat_alt)
  have "cache_inv s5"
    unfolding cache_inv_def by (intro conjI i1 i2 i3 i4 i5 i6 i7 i8)
  then show ?thesis
    using g e4 f4 l4 by (simp add: s5_def rest_def)
qed

lemma word_add_no_wrap:
  fixes a b :: "64 word"
  assumes "a < a + b"
  shows "unat (a + b) = unat a + unat b"
proof -
  from assms have "a \<le> a + b" by simp
  then have "unat a + unat b < 2 ^ LENGTH(64)" by (simp only: no_olen_add_nat)
  then show ?thesis by (simp only: unat_add_lem)
qed

lemma put_overlarge:
  assumes "c_capacity s < sz"
  shows "openslide_cache_put plane x y data sz s =
     Inr (next_entry s,
          s\<lparr>entries := (entries s)(next_entry s \<mapsto> \<lparr>e_refcount = 1, e_data = data, e_size = sz\<rparr>),
            next_entry := Suc (next_entry s),
            c_warned_overlarge_entry := (if c_warned_overlarge_entry s = 0 then 1 else c_warned_overlarge_entry s),
            log_warnings := log_warnings s + (if c_warned_overlarge_entry s = 0 then 1 else 0)\<rparr>)"
  using assms
  by (simp add: openslide_cache_put_def Let_def openslide_performance_warn_once_def)

lemma put_fits:
  assumes inv: "cache_inv s" and fits: "sz \<le> c_capacity s"
    and nowrap: "c_total_size s < c_total_size s + sz"
  shows "\<exists>s' n. openslide_cache_put plane x y data sz s = Inr (next_entry s, s') \<and>
           cache_inv s' \<and>
           c_capacity s' = c_capacity s \<and>
           c_warned_overlarge_entry s' = c_warned_overlarge_entry s \<and>
           log_warnings s' = log_warnings s \<and>
           next_entry s' = Suc (next_entry s) \<and>
           entries s' (next_entry s) = Some \<lparr>e_refcount = 2, e_data = data, e_size = sz\<rparr> \<and>
           c_list s' = \<lparr>v_key = \<lparr>k_plane = plane, k_x = x, k_y = y\<rparr>, v_entry = next_entry s\<rparr> #
              filter (\<lambda>w. v_key w \<noteq> \<lparr>k_plane = plane, k_x = x, k_y = y\<rparr>) (take n (c_list s)) \<and>
           n \<le> length (c_list s) \<and>
           (n < length (c_list s) \<longrightarrow>
              unat (c_capacity s) <
                sum_list (map (entry_bytes (entries s)) (take (Suc n) (c_list s))) + unat sz)"
proof -
  define e where "e = next_entry s"
  define en where "en = \<lparr>e_refcount = 1, e_data = data, e_size = sz\<rparr>"
  define s1 where "s1 = s\<lparr>entries := (entries s)(next_entry s \<mapsto> en), next_entry := Suc (next_entry s)\<rparr>"
  define key where "key = \<lparr>k_plane = plane, k_x = x, k_y = y\<rparr>"
  define val where "val = \<lparr>v_key = key, v_entry = e\<rparr>"
  have inv1: "cache_inv s1" unfolding s1_def by (rule alloc_inv [OF inv])
  have fr1: "e \<notin> v_entry ` set (c_list s1)"
    using inv_fresh [OF inv] by (simp add: s1_def e_def)
  have e1: "entries s1 e = Some en" by (simp add: s1_def e_def)
  have szeq: "unat (c_total_size s1 + sz) = unat (c_total_size s1) + unat sz"
    using word_add_no_wrap [OF nowrap] by (simp add: s1_def)
  have fits1: "sz \<le> c_capacity s1" using fits by (simp add: s1_def)
  from evict_loop_ok [OF inv1 szeq fits1 refl]
  obtain s2 n where ev: "evict_loop (c_total_size s1 + sz) (c_capacity s1) s1 = Inr s2"
    and inv2: "cache_inv s2"
    and fit2: "unat (c_total_size s2) + unat sz \<le> unat (c_capacity s1)"
    and f2: "c_capacity s2 = c_capacity s1" "next_entry s2 = next_entry s1"
      "c_warned_overlarge_entry s2 = c_warned_overlarge_entry s1"
      "log_warnings s2 = log_warnings s1"
    and l2: "c_list s2 = take n (c_list s1)"
    and ent2: "\<forall>p. p \<notin> v_entry ` set (c_list s1) \<longrightarrow> entries s2 p = entries s1 p"
    and nle1: "n \<le> length (c_list s1)"
    and mini1: "n < length (c_list s1) \<longrightarrow>
         unat (c_capacity s1) <
           sum_list (map (entry_bytes (entries s1)) (take (Suc n) (c_list s1))) + unat sz"
    by blast
  have "sum_list (map (entry_bytes (entries s1)) (take (Suc n) (c_list s1))) =
        sum_list (map (entry_bytes (entries s)) (take (Suc n) (c_list s1)))"
  proof (rule sum_list_map_eq)
    fix w assume "w \<in> set (take (Suc n) (c_list s1))"
    then have "w \<in> set (c_list s1)" by (rule in_set_takeD)
    with fr1 have "v_entry w \<noteq> e" by (metis imageI)
    then show "entry_bytes (entries s1) w = entry_bytes (entries s) w"
      by (simp add: entry_bytes_def s1_def e_def)
  qed
  with nle1 mini1 have nle: "n \<le> length (c_list s)"
    and mini: "n < length (c_list s) \<longrightarrow>
         unat (c_capacity s) <
           sum_list (map (entry_bytes (entries s)) (take (Suc n) (c_list s))) + unat sz"
    by (simp_all add: s1_def)
  have nover: "\<not> c_capacity s < sz" using fits by simp
  have pe: "possibly_evict s1 sz = Inr s2"
    using ev nowrap by (simp add: possibly_evict_def Let_def s1_def)
  have e2: "entries s2 e = Some en" using ent2 fr1 e1 by simp
  have fr2: "e \<notin> v_entry ` set (c_list s2)"
    using fr1 l2 by (auto dest: in_set_takeD)
  have fit2': "unat (c_total_size s2) + unat (e_size en) \<le> unat (c_capacity s2)"
    using fit2 f2 by (simp add: en_def)
  from insert_ok [OF inv2 e2 fr2 fit2' val_def]
  obtain s4 where g: "g_hash_table_replace key val (s2\<lparr>c_list := val # c_list s2\<rparr>) = Inr s4"
    and inv5: "cache_inv (s4\<lparr>c_total_size := c_total_size s4 + e_size en\<rparr>)"
    and e4: "entries s4 e = Some en"
    and f4: "c_capacity s4 = c_capacity s2" "next_entry s4 = next_entry s2"
      "c_warned_overlarge_entry s4 = c_warned_overlarge_entry s2"
      "log_warnings s4 = log_warnings s2"
    and l4: "c_list s4 = val # (case map_of (c_hashtable s2) key of None \<Rightarrow> c_list s2
                          | Some old \<Rightarrow> remove1 old (c_list s2))"
    by blast
  define s5 where "s5 = s4\<lparr>c_total_size := c_total_size s4 + sz\<rparr>"
  have inv5': "cache_inv s5" using inv5 by (simp add: s5_def en_def)
  have e5: "entries s5 e = Some en" using e4 by (simp add: s5_def)
  from inc_inv [OF inv5' e5]
  obtain s6 where a: "atomic_int_inc e s5 = Inr s6" and inv6: "cache_inv s6"
    and s6: "s6 = s5\<lparr>entries := (entries s5)(e \<mapsto> en\<lparr>e_refcount := e_refcount en + 1\<rparr>)\<rparr>"
    by blast
  have put: "openslide_cache_put plane x y data sz s = Inr (next_entry s, s6)"
    using nover pe [unfolded s1_def en_def] g [unfolded val_def key_def e_def]
      a [unfolded s5_def e_def]
    by (simp add: openslide_cache_put_def Let_def)
  have rest: "(case map_of (c_hashtable s2) key of None \<Rightarrow> c_list s2
                | Some old \<Rightarrow> remove1 old (c_list s2)) =
              filter (\<lambda>w. v_key w \<noteq> key) (c_list s2)"
  proof (cases "map_of (c_hashtable s2) key")
    case None
    have "\<And>w. w \<in> set (c_list s2) \<Longrightarrow> v_key w \<noteq> key"
      using inv_map_of [OF inv2] None by auto
    then show ?thesis using None by (simp add: filter_id_conv)
  next
    case (Some old)
    from inv_map_of_rev [OF inv2 Some] have o: "old \<in> set (c_list s2)" "v_key old = key"
      by simp_all
    have dl: "distinct (c_list s2)" using inv2 by (simp add: cache_inv_def distinct_map)
    have "v_key w \<noteq> key \<longleftrightarrow> old \<noteq> w" if "w \<in> set (c_list s2)" for w
    proof -
      from inv_map_of [OF inv2 that] have "map_of (c_hashtable s2) (v_key w) = Some w" .
      with Some o(2) show ?thesis by (metis option.inject)
    qed
    then have "filter (\<lambda>w. v_key w \<noteq> key) (c_list s2) = filter (\<lambda>w. old \<noteq> w) (c_list s2)"
      by (rule filter_cong [OF refl])
    also have "\<dots> = remove1 old (c_list s2)"
      using dl by (simp add: distinct_remove1_removeAll removeAll_filter_not_eq) 
    finally show ?thesis using Some by simp
  qed
  have l6: "c_list s6 = val # filter (\<lambda>w. v_key w \<noteq> key) (take n (c_list s))"
    using l4 rest l2 by (simp add: s6 s5_def s1_def)
  show ?thesis
    apply (rule exI [of _ s6], rule exI [of _ n])
    using put inv6 l6 f4 f2 nle mini
    by (simp add: s6 s5_def s1_def en_def key_def val_def e_def)
qed

lemma put_wraps:
  assumes "sz \<le> c_capacity s" "\<not> c_total_size s < c_total_size s + sz"
  shows "openslide_cache_put plane x y data sz s = Inl Assertion_Failed"
proof -
  from assms(1) have "\<not> c_capacity s < sz" by simp
  with assms(2) show ?thesis
    by (simp add: openslide_cache_put_def Let_def possibly_evict_def)
qed

lemma get_miss:
  "map_of (c_hashtable s) \<lparr>k_plane = plane, k_x = x, k_y = y\<rparr> = None \<Longrightarrow>
     openslide_cache_get plane x y s = Inr (None, s)"
  by (simp add: openslide_cache_get_def)

lemma get_hit:
  assumes inv: "cache_inv s"
    and hit: "map_of (c_hashtable s) \<lparr>k_plane = plane, k_x = x, k_y = y\<rparr> = Some val"
  shows "\<exists>en. entries s (v_entry val) = Some en \<and> val \<in> set (c_list s) \<and>
           openslide_cache_get plane x y s =
             Inr (Some (e_data en, v_entry val),
                  s\<lparr>c_list := val # remove1 val (c_list s),
                    entries := (entries s)(v_entry val \<mapsto> en\<lparr>e_refcount := e_refcount en + 1\<rparr>)\<rparr>) \<and>
           cache_inv (s\<lparr>c_list := val # remove1 val (c_list s),
                    entries := (entries s)(v_entry val \<mapsto> en\<lparr>e_refcount := e_refcount en + 1\<rparr>)\<rparr>)"
proof -
  from inv_map_of_rev [OF inv hit] have v: "val \<in> set (c_list s)" by simp
  from inv_entries [OF inv v] obtain en where e: "entries s (v_entry val) = Some en" .
  define s1 where "s1 = s\<lparr>c_list := val # remove1 val (c_list s)\<rparr>"
  have d: "distinct (map v_entry (c_list s))" and rs: "resident_size s = unat (c_total_size s)"
    using inv by (simp_all add: cache_inv_def)
  have dl: "distinct (c_list s)" and inj: "inj_on v_entry (set (c_list s))"
    using d by (simp_all add: distinct_map)
  have st: "set (c_list s1) = set (c_list s)" using v dl by (auto simp: s1_def)
  have i4: "distinct (map v_entry (c_list s1))"
  proof -
    have "v_entry val \<notin> v_entry ` set (remove1 val (c_list s))"
      using distinct_map_remove1_neq [OF d v] by force
    moreover have "distinct (map v_entry (remove1 val (c_list s)))"
      using dl inj by (auto simp: distinct_map intro: inj_on_subset)
    ultimately show ?thesis by (simp add: s1_def)
  qed
  have "resident_size s1 = resident_size s"
    using sum_list_map_remove1 [OF v, of "entry_bytes (entries s)"]
    by (simp add: resident_size_def s1_def)
  then have i7: "resident_size s1 = unat (c_total_size s1)" using rs by (simp add: s1_def)
  have h1: "c_hashtable s1 = c_hashtable s" "entries s1 = entries s"
    "next_entry s1 = next_entry s" "c_total_size s1 = c_total_size s"
    "c_capacity s1 = c_capacity s"
    by (simp_all add: s1_def)
  have inv1: "cache_inv s1"
    using inv unfolding cache_inv_def st h1 by (simp add: i4 i7 [unfolded h1])
  have e1: "entries s1 (v_entry val) = Some en" using e by (simp add: s1_def)
  from inc_inv [OF inv1 e1]
  obtain s2 where a: "atomic_int_inc (v_entry val) s1 = Inr s2" and inv2: "cache_inv s2"
    and s2: "s2 = s1\<lparr>entries := (entries s1)(v_entry val \<mapsto> en\<lparr>e_refcount := e_refcount en + 1\<rparr>)\<rparr>"
    by blast
  have "openslide_cache_get plane x y s = Inr (Some (e_data en, v_entry val), s2)"
    using hit a [unfolded s1_def] by (simp add: openslide_cache_get_def Let_def s2 s1_def)
  then show ?thesis using e v inv2 by (simp add: s2 s1_def)
qed

lemma create_inv: "cache_inv (openslide_cache_create capacity)"
  by (simp add: cache_inv_def openslide_cache_create_def resident_size_def)

lemma put_inv:
  assumes inv: "cache_inv s" and put: "openslide_cache_put plane x y data sz s = Inr (e, s')"
  shows "cache_inv s' \<and> c_capacity s' = c_capacity s"
proof (cases "c_capacity s < sz")
  case True
  have "cache_inv (s\<lparr>entries := (entries s)(next_entry s \<mapsto> \<lparr>e_refcount = 1, e_data = data, e_size = sz\<rparr>),
            next_entry := Suc (next_entry s)\<rparr>)" (is "cache_inv ?s1")
    by (rule alloc_inv [OF inv])
  then have "cache_inv (?s1\<lparr>c_warned_overlarge_entry := w, log_warnings := n\<rparr>)" for w n
    by (simp add: cache_inv_def resident_size_def)
  with put show ?thesis unfolding put_overlarge [OF True] by auto
next
  case False
  then have fits: "sz \<le> c_capacity s" by simp
  show ?thesis
  proof (cases "c_total_size s < c_total_size s + sz")
    case True
    from put_fits [OF inv fits True, of plane x y data] put show ?thesis by auto
  next
    case False
    from put_wraps [OF fits False, of plane x y data] put show ?thesis by simp
  qed
qed

lemma get_inv:
  assumes inv: "cache_inv s" and get: "openslide_cache_get plane x y s = Inr (r, s')"
  shows "cache_inv s' \<and> c_capacity s' = c_capacity s"
proof (cases "map_of (c_hashtable s) \<lparr>k_plane = plane, k_x = x, k_y = y\<rparr>")
  case None
  from get_miss [OF None] get inv show ?thesis by simp
next
  case (Some val)
  from get_hit [OF inv Some] get show ?thesis by auto
qed

lemma apply_op_inv:
  assumes "cache_inv s" "apply_op c s = Inr s'"
  shows "cache_inv s' \<and> c_capacity s' = c_capacity s"
proof (cases c)
  case (Put plane x y data sz)
  with assms(2) obtain e where "openslide_cache_put plane x y data sz s = Inr (e, s')"
    by (auto split: sum.splits)
  with assms(1) show ?thesis by (rule put_inv)
next
  case (Get plane x y)
  with assms(2) obtain r where "openslide_cache_get plane x y s = Inr (r, s')"
    by (auto split: sum.splits)
  with assms(1) show ?thesis by (rule get_inv)
qed

lemma run_ops_inv:
  "cache_inv s \<Longrightarrow> run_ops cs s = Inr s' \<Longrightarrow> cache_inv s' \<and> c_capacity s' = c_capacity s"
proof (induction cs arbitrary: s)
  case Nil
  then show ?case by simp
next
  case (Cons c cs)
  from Cons.prems(2) obtain s1 where 1: "apply_op c s = Inr s1" and 2: "run_ops cs s1 = Inr s'"
    by (auto split: sum.splits)
  from apply_op_inv [OF Cons.prems(1) 1] have "cache_inv s1" "c_capacity s1 = c_capacity s"
    by simp_all
  with Cons.IH [OF this(1) 2] show ?case by simp
qed


subsection \<open>The warning latch\<close>

lemma put_latch:
  assumes inv: "cache_inv s" and l: "latch_inv s"
    and put: "openslide_cache_put plane x y data sz s = Inr (e, s')"
  shows "latch_inv s'"
proof (cases "c_capacity s < sz")
  case True
  with put l show ?thesis unfolding put_overlarge [OF True] by (auto simp: latch_inv_def)
next
  case False
  then have fits: "sz \<le> c_capacity s" by simp
  show ?thesis
  proof (cases "c_total_size s < c_total_size s + sz")
    case True
    from put_fits [OF inv fits True, of plane x y data] put l show ?thesis
      by (auto simp: latch_inv_def)
  next
    case False
    from put_wraps [OF fits False, of plane x y data] put show ?thesis by simp
  qed
qed

lemma get_latch:
  assumes inv: "cache_inv s" and l: "latch_inv s"
    and get: "openslide_cache_get plane x y s = Inr (r, s')"
  shows "latch_inv s'"
proof (cases "map_of (c_hashtable s) \<lparr>k_plane = plane, k_x = x, k_y = y\<rparr>")
  case None
  from get_miss [OF None] get l show ?thesis by simp
next
  case (Some val)
  from get_hit [OF inv Some] get l show ?thesis by (auto simp: latch_inv_def)
qed

lemma run_ops_latch:
  "cache_inv s \<Longrightarrow> latch_inv s \<Longrightarrow> run_ops cs s = Inr s' \<Longrightarrow> latch_inv s'"
proof (induction cs arbitrary: s)
  case Nil
  then show ?case by simp
next
  case (Cons c cs)
  from Cons.prems(3) obtain s1 where 1: "apply_op c s = Inr s1" and 2: "run_ops cs s1 = Inr s'"
    by (auto split: sum.splits)
  from apply_op_inv [OF Cons.prems(1) 1] have i1: "cache_inv s1" by simp
  have "latch_inv s1"
  proof (cases c)
    case (Put plane x y data sz)
    with 1 obtain e where "openslide_cache_put plane x y data sz s = Inr (e, s1)"
      by (auto split: sum.splits)
    with Cons.prems(1,2) show ?thesis by (rule put_latch)
  next
    case (Get plane x y)
    with 1 obtain r where "openslide_cache_get plane x y s = Inr (r, s1)"
      by (auto split: sum.splits)
    with Cons.prems(1,2) show ?thesis by (rule get_latch)
  qed
  from Cons.IH [OF i1 this 2] show ?case .
qed

lemma create_latch: "latch_inv (openslide_cache_create capacity)"
  by (simp add: latch_inv_def openslide_cache_create_def)

lemmas cache_eval =
  openslide_cache_create_def openslide_cache_put_def openslide_cache_get_def
  possibly_evict_def evict_loop.simps g_hash_table_replace_def g_hash_table_remove_def
  hash_destroy_value_def openslide_cache_entry_unref_def atomic_int_inc_def
  openslide_performance_warn_once_def Let_def

subsection \<open>The claims about the cache\<close>

text \<open>
  C1. From a fresh cache, after any sequence of puts and gets that returns (no
  assertion aborted it), the sizes of the entries held by the values of the recency list
  add up, as natural numbers, to \<open>total_size\<close>, and \<open>total_size\<close> is at most the capacity;
  the recency list and the hash table hold the same values. A further put that returns
  and is not over-large keeps a prefix of the recency list, of some length \<open>n\<close>: what it
  evicts is the tail. It stops as soon as the incoming entry fits: when a value was evicted
  (\<open>n\<close> is less than the length), the first \<open>n + 1\<close> values together with the incoming
  entry exceed the capacity. The new value goes to the head, and an older value under
  the same key leaves the list.
\<close>

theorem cache_size_invariant:
  assumes "run_ops cs (openslide_cache_create capacity) = Inr s"
  shows "resident_size s = unat (c_total_size s) \<and> c_total_size s \<le> c_capacity s \<and>
         c_capacity s = capacity \<and> set (c_list s) = snd ` set (c_hashtable s) \<and>
         (\<forall>plane x y data sz e s'.
            sz \<le> capacity \<longrightarrow>
            openslide_cache_put plane x y data sz s = Inr (e, s') \<longrightarrow>
            (\<exists>n \<le> length (c_list s).
               c_list s' = \<lparr>v_key = \<lparr>k_plane = plane, k_x = x, k_y = y\<rparr>, v_entry = e\<rparr> #
                 filter (\<lambda>w. v_key w \<noteq> \<lparr>k_plane = plane, k_x = x, k_y = y\<rparr>)
                   (take n (c_list s)) \<and>
               (n < length (c_list s) \<longrightarrow>
                  unat capacity <
                    sum_list (map (entry_bytes (entries s)) (take (Suc n) (c_list s))) +
                    unat sz)))"
proof -
  from run_ops_inv [OF create_inv assms]
  have inv: "cache_inv s" and c: "c_capacity s = capacity"
    by (simp_all add: openslide_cache_create_def)
  from inv have a: "resident_size s = unat (c_total_size s)" "c_total_size s \<le> c_capacity s"
    "set (c_list s) = snd ` set (c_hashtable s)"
    by (simp_all add: cache_inv_def)
  have b: "\<exists>n \<le> length (c_list s).
               c_list s' = \<lparr>v_key = \<lparr>k_plane = plane, k_x = x, k_y = y\<rparr>, v_entry = e\<rparr> #
                 filter (\<lambda>w. v_key w \<noteq> \<lparr>k_plane = plane, k_x = x, k_y = y\<rparr>)
                   (take n (c_list s)) \<and>
               (n < length (c_list s) \<longrightarrow>
                  unat capacity <
                    sum_list (map (entry_bytes (entries s)) (take (Suc n) (c_list s))) +
                    unat sz)"
    if fits: "sz \<le> capacity" and put: "openslide_cache_put plane x y data sz s = Inr (e, s')"
    for plane x y data sz e s'
  proof (cases "c_total_size s < c_total_size s + sz")
    case True
    from fits c have fits': "sz \<le> c_capacity s" by simp
    from put_fits [OF inv fits' True, of plane x y data] put c show ?thesis by auto
  next
    case False
    from fits c have fits': "sz \<le> c_capacity s" by simp
    from put_wraps [OF fits' False, of plane x y data] put show ?thesis by simp
  qed
  from a c b show ?thesis by blast
qed

theorem cache_size_invariant_witness:
  "\<exists>s e s'. run_ops [Put 1 0 0 100 10, Put 1 1 0 101 20, Put 1 2 0 102 30, Get 1 0 0]
                (openslide_cache_create 100) = Inr s \<and>
      resident_size s = 60 \<and> c_total_size s = 60 \<and> c_capacity s = 100 \<and>
      map (k_x \<circ> v_key) (c_list s) = [0, 2, 1] \<and>
      openslide_cache_put 1 3 0 103 50 s = Inr (e, s') \<and>
      map (k_x \<circ> v_key) (c_list s') = [3, 0, 2] \<and> c_total_size s' = 90"
proof -
  have "\<exists>s e s'. run_ops [Put 1 0 0 100 10, Put 1 1 0 101 20, Put 1 2 0 102 30, Get 1 0 0]
                (openslide_cache_create 100) = Inr s \<and> c_total_size s = 60 \<and>
      map (k_x \<circ> v_key) (c_list s) = [0, 2, 1] \<and>
      openslide_cache_put 1 3 0 103 50 s = Inr (e, s') \<and>
      map (k_x \<circ> v_key) (c_list s') = [3, 0, 2] \<and> c_total_size s' = 90"
    by (simp add: cache_eval)
  then obtain s e s' where r: "run_ops [Put 1 0 0 100 10, Put 1 1 0 101 20, Put 1 2 0 102 30, Get 1 0 0]
                (openslide_cache_create 100) = Inr s"
    and t: "c_total_size s = 60" "map (k_x \<circ> v_key) (c_list s) = [0, 2, 1]"
    and p: "openslide_cache_put 1 3 0 103 50 s = Inr (e, s')"
      "map (k_x \<circ> v_key) (c_list s') = [3, 0, 2]" "c_total_size s' = 90"
    by auto
  from cache_size_invariant [OF r] t
  have "resident_size s = 60" "c_capacity s = 100" by simp_all
  with r t p show ?thesis by (intro exI [of _ s] exI [of _ e] exI [of _ s'] conjI)
qed

text \<open>
  C2. A put whose size exceeds the capacity returns normally with a new entry
  \<open>(data, size)\<close> of reference count 1, and leaves the recency list, the hash table,
  the total and the capacity as they were. The latch is set and a warning is written
  only when the latch was clear. In a state reached from a fresh cache the address of
  the new entry was free before the call, and the log holds at most one warning after
  it.
\<close>

theorem put_overlarge_rejected:
  assumes "c_capacity s < size_in_bytes"
  shows "\<exists>s'. openslide_cache_put plane x y data size_in_bytes s = Inr (next_entry s, s') \<and>
     c_list s' = c_list s \<and> c_hashtable s' = c_hashtable s \<and>
     c_total_size s' = c_total_size s \<and> c_capacity s' = c_capacity s \<and>
     entries s' = (entries s)(next_entry s \<mapsto>
                     \<lparr>e_refcount = 1, e_data = data, e_size = size_in_bytes\<rparr>) \<and>
     c_warned_overlarge_entry s' =
       (if c_warned_overlarge_entry s = 0 then 1 else c_warned_overlarge_entry s) \<and>
     log_warnings s' = log_warnings s + (if c_warned_overlarge_entry s = 0 then 1 else 0) \<and>
     (\<forall>cs capacity. run_ops cs (openslide_cache_create capacity) = Inr s \<longrightarrow>
        entries s (next_entry s) = None \<and> log_warnings s' \<le> 1)"
proof -
  let ?s' = "s\<lparr>entries := (entries s)(next_entry s \<mapsto>
                  \<lparr>e_refcount = 1, e_data = data, e_size = size_in_bytes\<rparr>),
            next_entry := Suc (next_entry s),
            c_warned_overlarge_entry :=
              (if c_warned_overlarge_entry s = 0 then 1 else c_warned_overlarge_entry s),
            log_warnings := log_warnings s + (if c_warned_overlarge_entry s = 0 then 1 else 0)\<rparr>"
  have put: "openslide_cache_put plane x y data size_in_bytes s = Inr (next_entry s, ?s')"
    by (rule put_overlarge [OF assms])
  have reach: "entries s (next_entry s) = None \<and> log_warnings ?s' \<le> 1"
    if r: "run_ops cs (openslide_cache_create capacity) = Inr s" for cs capacity
  proof -
    from run_ops_inv [OF create_inv r] have inv: "cache_inv s" by simp
    then have "entries s (next_entry s) = None" by (simp add: cache_inv_def)
    moreover from run_ops_latch [OF create_inv create_latch r]
    have "log_warnings ?s' \<le> 1" by (auto simp: latch_inv_def)
    ultimately show ?thesis by simp
  qed
  show ?thesis
    by (rule exI [of _ ?s']) (use put reach in simp)
qed

theorem put_overlarge_rejected_witness:
  "\<exists>s' s''. c_capacity (openslide_cache_create 8) < 16 \<and>
     openslide_cache_put 1 0 0 100 16 (openslide_cache_create 8) = Inr (0, s') \<and>
     c_list s' = [] \<and> c_hashtable s' = [] \<and> c_total_size s' = 0 \<and>
     entries s' 0 = Some \<lparr>e_refcount = 1, e_data = 100, e_size = 16\<rparr> \<and>
     c_warned_overlarge_entry s' = 1 \<and> log_warnings s' = 1 \<and>
     run_ops [Put 1 0 0 100 16] (openslide_cache_create 8) = Inr s' \<and>
     openslide_cache_put 1 0 0 101 16 s' = Inr (1, s'') \<and>
     entries s' 1 = None \<and> log_warnings s'' = 1 \<and>
     openslide_cache_get 1 0 0 s'' = Inr (None, s'')"
proof -
  have c: "c_capacity (openslide_cache_create 8) < 16"
    by (simp add: openslide_cache_create_def)
  from put_overlarge_rejected [OF c, of 1 0 0 100]
  obtain s' where 1: "openslide_cache_put 1 0 0 100 16 (openslide_cache_create 8) = Inr (0, s')"
    "c_list s' = []" "c_hashtable s' = []" "c_total_size s' = 0" "c_capacity s' = 8"
    "entries s' 0 = Some \<lparr>e_refcount = 1, e_data = 100, e_size = 16\<rparr>"
    "c_warned_overlarge_entry s' = 1" "log_warnings s' = 1"
    by (auto simp: openslide_cache_create_def)
  have r: "run_ops [Put 1 0 0 100 16] (openslide_cache_create 8) = Inr s'"
    using 1(1) by simp
  have n: "next_entry s' = 1"
    using 1(1) by (simp add: cache_eval split: if_splits) auto
  have c': "c_capacity s' < 16" using 1(5) by simp
  from put_overlarge_rejected [OF c', of 1 0 0 101]
  obtain s'' where p: "openslide_cache_put 1 0 0 101 16 s' = Inr (next_entry s', s'')"
    and h: "c_hashtable s'' = c_hashtable s'"
    and w: "log_warnings s'' =
              log_warnings s' + (if c_warned_overlarge_entry s' = 0 then 1 else 0)"
    and reach: "\<forall>cs capacity. run_ops cs (openslide_cache_create capacity) = Inr s' \<longrightarrow>
        entries s' (next_entry s') = None \<and> log_warnings s'' \<le> 1"
    by blast
  from reach r have "entries s' (next_entry s') = None" by blast
  with p h w n 1 have 2: "openslide_cache_put 1 0 0 101 16 s' = Inr (1, s'')"
    "entries s' 1 = None" "log_warnings s'' = 1" "c_hashtable s'' = []"
    by simp_all
  have g: "openslide_cache_get 1 0 0 s'' = Inr (None, s'')"
    using 2(4) by (simp add: openslide_cache_get_def)
  show ?thesis
    by (intro exI [of _ s'] exI [of _ s''] conjI c 1(1-4,6-8) r 2(1-3) g)
qed

text \<open>
  C3. In a well-formed cache, a get of a key the hash table does not hold returns the
  miss and the very same state. A get of a key held with value \<open>val\<close> returns the data
  pointer and the address of the entry of \<open>val\<close>; in the new state \<open>val\<close> is at the head
  of the recency list, the other values keep their order, the reference count of the
  entry is one higher (in 32-bit arithmetic), and nothing else has changed.
\<close>

theorem cache_get_semantics:
  assumes "cache_inv s"
  shows "(map_of (c_hashtable s) \<lparr>k_plane = plane, k_x = x, k_y = y\<rparr> = None \<longrightarrow>
            openslide_cache_get plane x y s = Inr (None, s)) \<and>
         (\<forall>val. map_of (c_hashtable s) \<lparr>k_plane = plane, k_x = x, k_y = y\<rparr> = Some val \<longrightarrow>
            (\<exists>en. entries s (v_entry val) = Some en \<and> val \<in> set (c_list s) \<and>
               openslide_cache_get plane x y s =
                 Inr (Some (e_data en, v_entry val),
                      s\<lparr>c_list := val # remove1 val (c_list s),
                        entries := (entries s)(v_entry val \<mapsto>
                                      en\<lparr>e_refcount := e_refcount en + 1\<rparr>)\<rparr>)))"
proof (intro conjI allI impI)
  assume "map_of (c_hashtable s) \<lparr>k_plane = plane, k_x = x, k_y = y\<rparr> = None"
  then show "openslide_cache_get plane x y s = Inr (None, s)" by (rule get_miss)
next
  fix val
  assume "map_of (c_hashtable s) \<lparr>k_plane = plane, k_x = x, k_y = y\<rparr> = Some val"
  from get_hit [OF assms this]
  show "\<exists>en. entries s (v_entry val) = Some en \<and> val \<in> set (c_list s) \<and>
               openslide_cache_get plane x y s =
                 Inr (Some (e_data en, v_entry val),
                      s\<lparr>c_list := val # remove1 val (c_list s),
                        entries := (entries s)(v_entry val \<mapsto>
                                      en\<lparr>e_refcount := e_refcount en + 1\<rparr>)\<rparr>)"
    by blast
qed

theorem cache_get_semantics_witness:
  "\<exists>s s'. run_ops [Put 1 0 0 100 10, Put 1 1 0 101 20, Put 1 2 0 102 30, Get 1 0 0,
                   Put 1 3 0 103 50] (openslide_cache_create 100) = Inr s \<and>
      cache_inv s \<and>
      map (k_x \<circ> v_key) (c_list s) = [3, 0, 2] \<and>
      map_option e_refcount (entries s 2) = Some 2 \<and>
      openslide_cache_get 1 1 0 s = Inr (None, s) \<and>
      openslide_cache_get 1 2 0 s = Inr (Some (102, 2), s') \<and>
      map (k_x \<circ> v_key) (c_list s') = [2, 3, 0] \<and>
      map_option e_refcount (entries s' 2) = Some 3 \<and>
      c_hashtable s' = c_hashtable s \<and> c_total_size s' = c_total_size s"
proof -
  define val where "val = \<lparr>v_key = \<lparr>k_plane = 1, k_x = 2, k_y = 0\<rparr>, v_entry = 2\<rparr>"
  have "\<exists>s. run_ops [Put 1 0 0 100 10, Put 1 1 0 101 20, Put 1 2 0 102 30, Get 1 0 0,
                   Put 1 3 0 103 50] (openslide_cache_create 100) = Inr s \<and>
      map_of (c_hashtable s) \<lparr>k_plane = 1, k_x = 1, k_y = 0\<rparr> = None \<and>
      map_of (c_hashtable s) \<lparr>k_plane = 1, k_x = 2, k_y = 0\<rparr> = Some val \<and>
      c_list s = [\<lparr>v_key = \<lparr>k_plane = 1, k_x = 3, k_y = 0\<rparr>, v_entry = 3\<rparr>,
                  \<lparr>v_key = \<lparr>k_plane = 1, k_x = 0, k_y = 0\<rparr>, v_entry = 0\<rparr>, val] \<and>
      entries s 2 = Some \<lparr>e_refcount = 2, e_data = 102, e_size = 30\<rparr>"
    by (simp add: cache_eval val_def)
  then obtain s where r: "run_ops [Put 1 0 0 100 10, Put 1 1 0 101 20, Put 1 2 0 102 30,
        Get 1 0 0, Put 1 3 0 103 50] (openslide_cache_create 100) = Inr s"
    and m: "map_of (c_hashtable s) \<lparr>k_plane = 1, k_x = 1, k_y = 0\<rparr> = None"
    and h: "map_of (c_hashtable s) \<lparr>k_plane = 1, k_x = 2, k_y = 0\<rparr> = Some val"
    and l: "c_list s = [\<lparr>v_key = \<lparr>k_plane = 1, k_x = 3, k_y = 0\<rparr>, v_entry = 3\<rparr>,
                  \<lparr>v_key = \<lparr>k_plane = 1, k_x = 0, k_y = 0\<rparr>, v_entry = 0\<rparr>, val]"
    and e: "entries s 2 = Some \<lparr>e_refcount = 2, e_data = 102, e_size = 30\<rparr>"
    by auto
  from run_ops_inv [OF create_inv r] have inv: "cache_inv s" by simp
  define s' where "s' = s\<lparr>c_list := val # remove1 val (c_list s),
       entries := (entries s)(2 \<mapsto> \<lparr>e_refcount = 3, e_data = 102, e_size = 30\<rparr>)\<rparr>"
  from cache_get_semantics [OF inv, of 1 1 0] m
  have miss: "openslide_cache_get 1 1 0 s = Inr (None, s)" by simp
  from cache_get_semantics [OF inv, of 1 2 0] h e
  have hit: "openslide_cache_get 1 2 0 s = Inr (Some (102, 2), s')"
    by (auto simp: val_def s'_def)
  have ls: "map (k_x \<circ> v_key) (c_list s) = [3, 0, 2]"
    "map_option e_refcount (entries s 2) = Some 2"
    using l e by (simp_all add: val_def)
  have ls': "map (k_x \<circ> v_key) (c_list s') = [2, 3, 0]"
    "map_option e_refcount (entries s' 2) = Some 3"
    "c_hashtable s' = c_hashtable s" "c_total_size s' = c_total_size s"
    using l by (simp_all add: s'_def val_def)
  show ?thesis
    by (intro exI [of _ s] exI [of _ s'] conjI r inv ls miss hit ls')
qed

text \<open>
  C10. A put of size 0 aborts: 0 is never larger than the capacity, so the over-large
  branch is not taken, \<open>possibly_evict\<close> is entered with incoming size 0, and its
  assertion \<open>size > cache->total_size\<close> compares the total with itself.
\<close>

theorem put_size_zero_aborts:
  "openslide_cache_put plane x y data 0 s = Inl Assertion_Failed"
  by (simp add: openslide_cache_put_def possibly_evict_def Let_def)

section \<open>Properties of the VSF backend\<close>

subsection \<open>Reading bytes\<close>

lemma read_bytes_loop_spec:
  assumes "0 < n"
  shows "\<exists>d fd'. read_bytes_loop fd buf n = Inr (buf @ d, fd') \<and>
           f_content fd' = f_content fd \<and>
           (if f_pos fd + n \<le> length (f_content fd)
            then d = take n (drop (f_pos fd) (f_content fd)) \<and> f_pos fd' = f_pos fd + n
            else length d < n)"
  using assms
proof (induction fd buf n rule: read_bytes_loop.induct)
  case (1 fd buffer n)
  define block where "block = min n 4096"
  define nmemb where "nmemb = n div block"
  define avail where "avail = drop (f_pos fd) (f_content fd)"
  define k where "k = min (block * nmemb) (length avail)"
  define items where "items = k div block"
  define fd1 where "fd1 = fd\<lparr>f_pos := f_pos fd + k\<rparr>"
  have bpos: "0 < block" using \<open>0 < n\<close> by (simp add: block_def)
  have fr: "fread fd block nmemb = (take (items * block) avail, items, fd1)"
    using bpos by (simp add: fread_def Let_def avail_def k_def items_def fd1_def)
  have nm: "block * nmemb \<le> n" by (simp add: nmemb_def)
  have ik: "items * block \<le> k" by (simp add: items_def)
  have kle: "k \<le> block * nmemb" "k \<le> length avail" by (simp_all add: k_def)
  have la: "length avail = length (f_content fd) - f_pos fd" by (simp add: avail_def)
  show ?case
  proof (cases "items > 0")
    case False
    then have r: "read_bytes_loop fd buffer n = Inr (buffer, fd1)"
      using bpos fr by (subst read_bytes_loop.simps) (simp add: block_def [symmetric] nmemb_def [symmetric] Let_def)
    have "k < block" using False bpos by (simp add: items_def div_eq_0_iff)
    moreover have "0 < nmemb"
      unfolding nmemb_def using bpos by (simp add: div_greater_zero_iff block_def)
    then have "block \<le> block * nmemb" by simp
    ultimately have "k = length avail" by (simp add: k_def min_def split: if_splits)
    with \<open>k < block\<close> have "\<not> f_pos fd + n \<le> length (f_content fd)"
      using la unfolding block_def by auto
    then show ?thesis
      using r \<open>0 < n\<close> by (intro exI [of _ "[]"] exI [of _ fd1]) (simp add: fd1_def)
  next
    case True
    define rem where "rem = n - items * block"
    define d1 where "d1 = take (items * block) avail"
    have ld1: "length d1 = items * block" using ik kle by (simp add: d1_def)
    show ?thesis
    proof (cases "rem = 0")
      case z: True
      then have r: "read_bytes_loop fd buffer n = Inr (buffer @ d1, fd1)"
        using bpos fr True
        by (subst read_bytes_loop.simps)
           (simp add: block_def [symmetric] nmemb_def [symmetric] Let_def rem_def d1_def)
      from z have eq: "items * block = n" "k = n" using ik kle nm by (simp_all add: rem_def)
      then have "f_pos fd + n \<le> length (f_content fd)" using kle la \<open>0 < n\<close> by linarith
      then show ?thesis
        using r eq by (intro exI [of _ d1] exI [of _ fd1]) (simp add: fd1_def d1_def avail_def)
    next
      case nz: False
      then have r: "read_bytes_loop fd buffer n = read_bytes_loop fd1 (buffer @ d1) rem"
        using bpos fr True
        by (subst read_bytes_loop.simps)
           (simp add: block_def [symmetric] nmemb_def [symmetric] Let_def rem_def d1_def)
      have rpos: "0 < rem" using nz by simp
      have bne: "block \<noteq> 0" using bpos by simp
      have fr2: "(d1, items, fd1) = fread fd block (n div block)"
        using fr by (simp add: d1_def nmemb_def)
      from "1.IH" [OF block_def bne fr2 refl True refl rem_def nz rpos]
      obtain d2 fd2 where r2: "read_bytes_loop fd1 (buffer @ d1) rem = Inr ((buffer @ d1) @ d2, fd2)"
        and c2: "f_content fd2 = f_content fd1"
        and p2: "if f_pos fd1 + rem \<le> length (f_content fd1)
            then d2 = take rem (drop (f_pos fd1) (f_content fd1)) \<and> f_pos fd2 = f_pos fd1 + rem
            else length d2 < rem"
        by blast
      have p1: "f_pos fd1 = f_pos fd + k" and c1: "f_content fd1 = f_content fd"
        by (simp_all add: fd1_def)
      show ?thesis
      proof (cases "f_pos fd + n \<le> length (f_content fd)")
        case fits: True
        then have "n \<le> length avail" using la by simp
        then have keq: "k = block * nmemb" using nm by (simp add: k_def)
        have ieq: "items * block = k" unfolding items_def keq using bpos by simp
        have kn: "k \<le> n" using keq nm by simp
        have rk: "rem = n - k" using ieq by (simp add: rem_def)
        have "f_pos fd1 + rem \<le> length (f_content fd1)"
          unfolding p1 c1 rk using fits kn by linarith
        with p2 have d2: "d2 = take rem (drop (f_pos fd1) (f_content fd1))"
          and pos2: "f_pos fd2 = f_pos fd1 + rem"
          by simp_all
        have "d1 @ d2 = take (k + rem) avail"
          unfolding d1_def d2 p1 c1 ieq avail_def by (simp add: take_add add.commute)
        moreover have "k + rem = n" using rk kn by simp
        ultimately have d12: "d1 @ d2 = take n avail" by simp
        have "f_pos fd2 = f_pos fd + n" using pos2 p1 rk kn by simp
        then show ?thesis
          using r r2 c2 c1 d12 fits
          by (intro exI [of _ "d1 @ d2"] exI [of _ fd2]) (simp add: avail_def)
      next
        case short: False
        have "items * block \<le> n" using ik kle nm by linarith
        then have "f_pos fd1 + rem > length (f_content fd1)"
          unfolding p1 c1 rem_def using short ik by linarith
        with p2 have "length d2 < rem" by simp
        then have "length (d1 @ d2) < n" using ld1 \<open>items * block \<le> n\<close> by (simp add: rem_def)
        then show ?thesis
          using r r2 c2 c1 short
          by (intro exI [of _ "d1 @ d2"] exI [of _ fd2]) simp
      qed
    qed
  qed
qed

lemma read_bytes_zero: "read_bytes fd 0 = Inl (Crash Division_By_Zero)"
  by (simp add: read_bytes_def read_bytes_loop.simps)

lemma read_bytes_ok:
  assumes "0 < n" "f_pos fd + n \<le> length (f_content fd)"
  shows "read_bytes fd n =
           Inr (take n (drop (f_pos fd) (f_content fd)), fd\<lparr>f_pos := f_pos fd + n\<rparr>)"
proof -
  from read_bytes_loop_spec [OF assms(1), of fd "[]"] assms(2)
  obtain fd' where "read_bytes fd n = Inr (take n (drop (f_pos fd) (f_content fd)), fd')"
    "f_content fd' = f_content fd" "f_pos fd' = f_pos fd + n"
    by (auto simp: read_bytes_def)
  then show ?thesis by (cases fd, cases fd') simp
qed

lemma read_bytes_short:
  assumes "0 < n" "\<not> f_pos fd + n \<le> length (f_content fd)"
  shows "\<exists>d fd'. read_bytes fd n = Inr (d, fd') \<and> length d < n"
  using read_bytes_loop_spec [OF assms(1), of fd "[]"] assms(2)
  by (auto simp: read_bytes_def)

lemma read_bytes_cases:
  assumes "0 < n"
  obtains (fits) "f_pos fd + n \<le> length (f_content fd)"
      "read_bytes fd n =
         Inr (take n (drop (f_pos fd) (f_content fd)), fd\<lparr>f_pos := f_pos fd + n\<rparr>)"
    | (short) d fd' where "\<not> f_pos fd + n \<le> length (f_content fd)"
      "read_bytes fd n = Inr (d, fd')" "length d < n"
proof (cases "f_pos fd + n \<le> length (f_content fd)")
  case True
  with read_bytes_ok [OF assms True] fits show ?thesis by blast
next
  case False
  with read_bytes_short [OF assms False] short show ?thesis by blast
qed

lemma length_take_drop_fits:
  "p + n \<le> length xs \<Longrightarrow> length (take n (drop p xs)) = n"
  by simp

lemma le_nat_nat_bytes: "le_nat (nat_bytes n a) = a mod 256 ^ n"
proof (induction n arbitrary: a)
  case 0
  then show ?case by simp
next
  case (Suc n)
  have "unat (word_of_nat (a mod 256) :: byte) = a mod 256"
    by (simp add: unat_of_nat)
  then show ?case
    using Suc [of "a div 256"] by (simp add: mod_mult2_eq)
qed

lemma length_nat_bytes [simp]: "length (nat_bytes n a) = n"
  by (induction n arbitrary: a) auto

lemma le_u32_bytes: "le_u32 (u32_bytes w) = w"
proof -
  have "unat w < 2 ^ 32" using unsigned_less [of w] by simp
  then have "le_nat (u32_bytes w) = unat w"
    by (simp add: u32_bytes_def le_nat_nat_bytes)
  then show ?thesis by (simp add: le_u32_def)
qed

lemma le_u64_bytes: "le_u64 (u64_bytes w) = w"
proof -
  have "unat w < 2 ^ 64" using unsigned_less [of w] by simp
  then have "le_nat (u64_bytes w) = unat w"
    by (simp add: u64_bytes_def le_nat_nat_bytes)
  then show ?thesis by (simp add: le_u64_def)
qed

lemma length_u32_bytes [simp]: "length (u32_bytes w) = 4"
  by (simp add: u32_bytes_def)

lemma length_u64_bytes [simp]: "length (u64_bytes w) = 8"
  by (simp add: u64_bytes_def)

lemma nat_bytes_4:
  "nat_bytes 4 a = [word_of_nat (a mod 256), word_of_nat (a div 256 mod 256),
     word_of_nat (a div 256 div 256 mod 256), word_of_nat (a div 256 div 256 div 256 mod 256)]"
proof -
  have "nat_bytes (Suc (Suc (Suc (Suc 0)))) a = [word_of_nat (a mod 256),
     word_of_nat (a div 256 mod 256), word_of_nat (a div 256 div 256 mod 256),
     word_of_nat (a div 256 div 256 div 256 mod 256)]"
    by (simp only: nat_bytes.simps)
  moreover have "(4::nat) = Suc (Suc (Suc (Suc 0)))" by simp
  ultimately show ?thesis by (simp only:)
qed

lemma nat_bytes_8:
  "nat_bytes 8 a = nat_bytes 4 a @ nat_bytes 4 (a div 256 div 256 div 256 div 256)"
proof -
  have "nat_bytes (Suc (Suc (Suc (Suc (Suc (Suc (Suc (Suc 0)))))))) a =
        nat_bytes (Suc (Suc (Suc (Suc 0)))) a @
        nat_bytes (Suc (Suc (Suc (Suc 0)))) (a div 256 div 256 div 256 div 256)"
    by (simp only: nat_bytes.simps append.simps)
  moreover have "(4::nat) = Suc (Suc (Suc (Suc 0)))"
    "(8::nat) = Suc (Suc (Suc (Suc (Suc (Suc (Suc (Suc 0)))))))" by simp_all
  ultimately show ?thesis by (simp only:)
qed

lemma fseeko_cur_nat: "fseeko fd (int n) SEEK_CUR = fd\<lparr>f_pos := f_pos fd + n\<rparr>"
  by (simp add: fseeko_def nat_add_distrib)

lemma fseeko_set: "0 \<le> off \<Longrightarrow> fseeko fd off SEEK_SET = fd\<lparr>f_pos := nat off\<rparr>"
  by (simp add: fseeko_def)

lemma major1_fields_ok:
  assumes fits: "p + 16 \<le> length (f_content fd)"
  shows "(case read_bytes (fd\<lparr>f_pos := p\<rparr>) 4 of
                   Inl f \<Rightarrow> Inl f
                 | Inr (d1, fd1) \<Rightarrow>
                     if length d1 \<noteq> 4 then Inl (GError Failed_Parsing_Header)
                     else (case read_bytes fd1 4 of
                        Inl f \<Rightarrow> Inl f
                      | Inr (d2, fd2) \<Rightarrow>
                          if length d2 \<noteq> 4 then Inl (GError Failed_Parsing_Header)
                          else (case read_bytes fd2 4 of
                             Inl f \<Rightarrow> Inl f
                           | Inr (d3, fd3) \<Rightarrow>
                               if length d3 \<noteq> 4 then Inl (GError Failed_Parsing_Header)
                               else (case read_bytes fd3 4 of
                                  Inl f \<Rightarrow> Inl f
                                | Inr (d4, fd4) \<Rightarrow>
                                    if length d4 \<noteq> 4 then Inl (GError Failed_Parsing_Header)
                                    else Inr (k d1 d2 d3 d4))))) =
         Inr (k (take 4 (drop p (f_content fd))) (take 4 (drop (p + 4) (f_content fd)))
                (take 4 (drop (p + 8) (f_content fd))) (take 4 (drop (p + 12) (f_content fd))))"
  using fits by (simp add: read_bytes_ok add_ac)

lemma major1_fields_short:
  assumes short: "length (f_content fd) < p + 16"
  shows "(case read_bytes (fd\<lparr>f_pos := p\<rparr>) 4 of
                   Inl f \<Rightarrow> Inl f
                 | Inr (d1, fd1) \<Rightarrow>
                     if length d1 \<noteq> 4 then Inl (GError Failed_Parsing_Header)
                     else (case read_bytes fd1 4 of
                        Inl f \<Rightarrow> Inl f
                      | Inr (d2, fd2) \<Rightarrow>
                          if length d2 \<noteq> 4 then Inl (GError Failed_Parsing_Header)
                          else (case read_bytes fd2 4 of
                             Inl f \<Rightarrow> Inl f
                           | Inr (d3, fd3) \<Rightarrow>
                               if length d3 \<noteq> 4 then Inl (GError Failed_Parsing_Header)
                               else (case read_bytes fd3 4 of
                                  Inl f \<Rightarrow> Inl f
                                | Inr (d4, fd4) \<Rightarrow>
                                    if length d4 \<noteq> 4 then Inl (GError Failed_Parsing_Header)
                                    else Inr (k d1 d2 d3 d4))))) =
         Inl (GError Failed_Parsing_Header)"
proof -
  have step: "(case read_bytes g 4 of Inl f \<Rightarrow> Inl f
               | Inr (d, g') \<Rightarrow> if length d \<noteq> 4 then Inl (GError Failed_Parsing_Header)
                                else rest d g') = Inl (GError Failed_Parsing_Header)"
    if "\<not> f_pos g + 4 \<le> length (f_content g)" for g and rest :: "byte list \<Rightarrow> stream \<Rightarrow> failure + 'a"
  proof -
    from read_bytes_short [of 4 g] that obtain d g' where
      "read_bytes g 4 = Inr (d, g')" "length d < 4" by auto
    then show ?thesis by simp
  qed
  let ?c = "f_content fd"
  consider "length ?c < p + 4" | "p + 4 \<le> length ?c" "length ?c < p + 8"
    | "p + 8 \<le> length ?c" "length ?c < p + 12" | "p + 12 \<le> length ?c" "length ?c < p + 16"
    using short by linarith
  then show ?thesis
  proof cases
    case 1
    then show ?thesis by (subst step) simp_all
  next
    case 2
    then show ?thesis by (simp add: read_bytes_ok) (subst step, simp_all)
  next
    case 3
    then show ?thesis by (simp add: read_bytes_ok) (subst step, simp_all)
  next
    case 4
    then show ?thesis by (simp add: read_bytes_ok) (subst step, simp_all)
  qed
qed

lemma read1_unfold:
  assumes "major_version content = 1" "minor_version content \<in> {0, 1, 2}"
  shows "read_index_file_content fd content =
    (case read_bytes (fd\<lparr>f_pos := major1_seek (minor_version content)\<rparr>) 4 of
                   Inl f \<Rightarrow> Inl f
                 | Inr (d1, fd1) \<Rightarrow>
                     if length d1 \<noteq> 4 then Inl (GError Failed_Parsing_Header)
                     else (case read_bytes fd1 4 of
                        Inl f \<Rightarrow> Inl f
                      | Inr (d2, fd2) \<Rightarrow>
                          if length d2 \<noteq> 4 then Inl (GError Failed_Parsing_Header)
                          else (case read_bytes fd2 4 of
                             Inl f \<Rightarrow> Inl f
                           | Inr (d3, fd3) \<Rightarrow>
                               if length d3 \<noteq> 4 then Inl (GError Failed_Parsing_Header)
                               else (case read_bytes fd3 4 of
                                  Inl f \<Rightarrow> Inl f
                                | Inr (d4, fd4) \<Rightarrow>
                                    if length d4 \<noteq> 4 then Inl (GError Failed_Parsing_Header)
                                    else Inr ((\<lambda>d1 d2 d3 d4.
                                       content\<lparr>r_channel := 255, g_channel := 255, b_channel := 255,
                      lowest_focal_plane_index := 0, highest_focal_plane_index := 0,
                      quality := 0, format := tile_format_jpeg, z_range := 0,
                      level_count := 9, resolution_x := 0, resolution_y := 0,
                      size_x := le_u32 d1, size_y := le_u32 d2,
                      tile_size_x := le_u32 d3, tile_size_y := le_u32 d4\<rparr>) d1 d2 d3 d4)))))"
  using assms
  by (auto simp: read_index_file_content_def Let_def major1_seek_def fseeko_def)



lemma get_tile_data_version1_handover:
  assumes "fs layer_filename = Some bs"
    and "0 \<le> sint offset" "0 < unat sz" "nat (sint offset) + unat sz \<le> length bs"
  shows "get_tile_data_version1 fs cd uninit layer_filename offset sz width height =
           (if jpeg_decode_buffer cd
                 (map uninit [0 ..< length jpegHeader] @
                  take (unat sz) (drop (nat (sint offset)) bs))
                 sz width height
            then Inr () else Inl (GError Failed_To_Decode_Data))"
  using assms
  by (simp add: get_tile_data_version1_def openslide_fopen_def fseeko_def read_bytes_ok
        Let_def)

subsection \<open>The claims about the VSF backend\<close>

text \<open>
  C6. For an index file of major version 1 the header parser reads from offset 9, 13 or
  25 for the minor versions 0, 1 and 2. When the file has 16 bytes from there, the parser
  succeeds and \<open>size_x\<close>, \<open>size_y\<close>, \<open>tile_size_x\<close> and \<open>tile_size_y\<close> are the four
  little-endian 32-bit numbers stored there, in this order: whatever four numbers were
  written there are the ones recovered. When the file is shorter, parsing fails. Any
  other minor version fails with the version error.
\<close>

theorem major1_header_parsing:
  assumes "major_version content = 1"
  shows "(minor_version content \<notin> {0, 1, 2} \<longrightarrow>
            read_index_file_content fd content = Inl (GError Unsupported_Product_Version)) \<and>
         (\<forall>seek. (minor_version content, seek) \<in> {(0, 9), (1, 13), (2, 25)} \<longrightarrow>
            (length (f_content fd) < seek + 16 \<longrightarrow>
               read_index_file_content fd content = Inl (GError Failed_Parsing_Header)) \<and>
            (seek + 16 \<le> length (f_content fd) \<longrightarrow>
               (\<exists>c. read_index_file_content fd content = Inr c \<and>
                  size_x c = le_u32 (take 4 (drop seek (f_content fd))) \<and>
                  size_y c = le_u32 (take 4 (drop (seek + 4) (f_content fd))) \<and>
                  tile_size_x c = le_u32 (take 4 (drop (seek + 8) (f_content fd))) \<and>
                  tile_size_y c = le_u32 (take 4 (drop (seek + 12) (f_content fd))))) \<and>
            (\<forall>sx sy tx ty.
               take 16 (drop seek (f_content fd)) =
                 u32_bytes sx @ u32_bytes sy @ u32_bytes tx @ u32_bytes ty \<longrightarrow>
               (\<exists>c. read_index_file_content fd content = Inr c \<and>
                  size_x c = sx \<and> size_y c = sy \<and> tile_size_x c = tx \<and> tile_size_y c = ty)))"
proof (intro conjI allI impI)
  assume "minor_version content \<notin> {0, 1, 2}"
  with assms show "read_index_file_content fd content = Inl (GError Unsupported_Product_Version)"
    by (simp add: read_index_file_content_def Let_def)
next
  fix seek :: nat
  assume m: "(minor_version content, seek) \<in> {(0, 9), (1, 13), (2, 25)}"
  then have mv: "minor_version content \<in> {0, 1, 2}"
    and sk: "major1_seek (minor_version content) = seek"
    by (auto simp: major1_seek_def)
  note u = read1_unfold [OF assms mv, unfolded sk]
  {
    assume "length (f_content fd) < seek + 16"
    then show "read_index_file_content fd content = Inl (GError Failed_Parsing_Header)"
      unfolding u by (rule major1_fields_short)
  }
  {
    assume "seek + 16 \<le> length (f_content fd)"
    then show "\<exists>c. read_index_file_content fd content = Inr c \<and>
                  size_x c = le_u32 (take 4 (drop seek (f_content fd))) \<and>
                  size_y c = le_u32 (take 4 (drop (seek + 4) (f_content fd))) \<and>
                  tile_size_x c = le_u32 (take 4 (drop (seek + 8) (f_content fd))) \<and>
                  tile_size_y c = le_u32 (take 4 (drop (seek + 12) (f_content fd)))"
      unfolding u by (simp add: major1_fields_ok)
  }
  {
    fix sx sy tx ty
    assume b: "take 16 (drop seek (f_content fd)) =
                 u32_bytes sx @ u32_bytes sy @ u32_bytes tx @ u32_bytes ty"
    then have "length (take 16 (drop seek (f_content fd))) = 16" by simp
    then have fits: "seek + 16 \<le> length (f_content fd)" by simp
    have t: "take 4 (drop (seek + k) (f_content fd)) =
             take 4 (drop k (take 16 (drop seek (f_content fd))))" if "k + 4 \<le> 16" for k
      using that by (simp add: drop_take add.commute)
    have "take 4 (drop seek (f_content fd)) = u32_bytes sx"
      "take 4 (drop (seek + 4) (f_content fd)) = u32_bytes sy"
      "take 4 (drop (seek + 8) (f_content fd)) = u32_bytes tx"
      "take 4 (drop (seek + 12) (f_content fd)) = u32_bytes ty"
      using t [of 0] t [of 4] t [of 8] t [of 12] by (simp_all add: b)
    then show "\<exists>c. read_index_file_content fd content = Inr c \<and>
                  size_x c = sx \<and> size_y c = sy \<and> tile_size_x c = tx \<and> tile_size_y c = ty"
      unfolding u using fits by (simp add: major1_fields_ok le_u32_bytes)
  }
qed

theorem major1_header_parsing_witness:
  "\<exists>c. read_index_file_content
          \<lparr>f_content = replicate 13 0 @ u32_bytes 4096 @ u32_bytes 2048 @ u32_bytes 256 @
                         u32_bytes 256, f_pos = 6\<rparr>
          (blank_content\<lparr>major_version := 1, minor_version := 1\<rparr>) = Inr c \<and>
        size_x c = 4096 \<and> size_y c = 2048 \<and> tile_size_x c = 256 \<and> tile_size_y c = 256 \<and>
        u32_bytes 4096 = [0, 16, 0, 0] \<and>
        read_index_file_content \<lparr>f_content = replicate 28 0, f_pos = 6\<rparr>
          (blank_content\<lparr>major_version := 1, minor_version := 1\<rparr>) =
          Inl (GError Failed_Parsing_Header) \<and>
        read_index_file_content \<lparr>f_content = replicate 64 0, f_pos = 6\<rparr>
          (blank_content\<lparr>major_version := 1, minor_version := 3\<rparr>) =
          Inl (GError Unsupported_Product_Version)"
proof -
  let ?c1 = "blank_content\<lparr>major_version := 1, minor_version := 1\<rparr>"
  let ?c3 = "blank_content\<lparr>major_version := 1, minor_version := 3\<rparr>"
  let ?fd = "\<lparr>f_content = replicate 13 0 @ u32_bytes 4096 @ u32_bytes 2048 @ u32_bytes 256 @
                         u32_bytes 256, f_pos = 6\<rparr>"
  have m1: "major_version ?c1 = 1" and m3: "major_version ?c3 = 1" by simp_all
  have in1: "(minor_version ?c1, 13::nat) \<in> {(0, 9), (1, 13), (2, 25)}" by simp
  have bytes: "take 16 (drop 13 (f_content ?fd)) =
      u32_bytes 4096 @ u32_bytes 2048 @ u32_bytes 256 @ u32_bytes 256"
    by simp
  note T = major1_header_parsing [OF m1, of ?fd, THEN conjunct2, THEN spec, THEN mp, OF in1]
  from T [THEN conjunct2, THEN conjunct2, THEN spec, THEN spec, THEN spec, THEN spec,
          THEN mp, OF bytes]
  obtain c where c: "read_index_file_content ?fd ?c1 = Inr c"
    "size_x c = 4096" "size_y c = 2048" "tile_size_x c = 256" "tile_size_y c = 256"
    by (elim exE conjE)
  have short: "length (f_content \<lparr>f_content = replicate 28 0, f_pos = 6\<rparr>) < 13 + 16"
    by simp
  have s: "read_index_file_content \<lparr>f_content = replicate 28 0, f_pos = 6\<rparr> ?c1 =
          Inl (GError Failed_Parsing_Header)"
    by (rule major1_header_parsing [OF m1, of "\<lparr>f_content = replicate 28 0, f_pos = 6\<rparr>",
          THEN conjunct2, THEN spec, THEN mp, OF in1, THEN conjunct1, THEN mp, OF short])
  have n3: "minor_version ?c3 \<notin> {0, 1, 2}" by simp
  have v: "read_index_file_content \<lparr>f_content = replicate 64 0, f_pos = 6\<rparr> ?c3 =
          Inl (GError Unsupported_Product_Version)"
    by (rule major1_header_parsing [OF m3, of "\<lparr>f_content = replicate 64 0, f_pos = 6\<rparr>",
          THEN conjunct1, THEN mp, OF n3])
  have b: "u32_bytes 4096 = [0, 16, 0, 0]"
    by (simp add: u32_bytes_def nat_bytes_4)
  show ?thesis
    by (intro exI [of _ c] conjI c b s v)
qed

text \<open>
  C8. Take an image file of major version 2 whose bytes 8 to 15 hold the number
  \<open>tile_count\<close> and which is long enough to hold \<open>tile_count\<close> offsets of 8 bytes from
  byte 16 on. Then the locator fails with the index error exactly when
  \<open>tile_index >= tile_count\<close>, and otherwise returns the stored offset of that index and,
  as size, the file length minus the offset for the last tile and the next stored offset
  minus the offset for the others, in unsigned 64-bit arithmetic.
\<close>

theorem major2_tile_location:
  assumes count: "le_u64 (take 8 (drop 8 (f_content fd))) = tile_count"
    and dir: "16 + 8 * unat tile_count \<le> length (f_content fd)"
  shows "(tile_count \<le> ucast tile_index \<longrightarrow>
            get_tile_infomation_version2 minor fd tile_index = Inl (GError Tile_Index_Invalid)) \<and>
         (ucast tile_index < tile_count \<longrightarrow>
            get_tile_infomation_version2 minor fd tile_index =
              Inr (offset_at (f_content fd) (unat tile_index),
                   (if ucast tile_index = tile_count - 1
                    then word_of_nat (length (f_content fd))
                    else offset_at (f_content fd) (unat tile_index + 1))
                   - offset_at (f_content fd) (unat tile_index)))"
proof -
  let ?c = "f_content fd"
  let ?i = "unat tile_index"
  have len16: "16 \<le> length ?c" using dir by simp
  have r1: "read_bytes (fseeko fd (int sizeof_uint64) SEEK_SET) sizeof_uint64 =
              Inr (take 8 (drop 8 ?c), fd\<lparr>f_pos := 16\<rparr>)"
    using len16 by (simp add: sizeof_uint64_def fseeko_def read_bytes_ok)
  have "unat tile_index < 2 ^ LENGTH(32)" by (rule unsigned_less)
  then have "unat tile_index < 2 ^ 64" by simp
  then have ui: "unat (ucast tile_index :: 64 word) = ?i"
    by (simp add: unsigned_ucast_eq take_bit_nat_eq_self)
  show ?thesis
  proof (intro conjI impI)
    assume "tile_count \<le> ucast tile_index"
    then show "get_tile_infomation_version2 minor fd tile_index = Inl (GError Tile_Index_Invalid)"
      using r1 len16 count
      by (simp add: get_tile_infomation_version2_def Let_def sizeof_uint64_def)
  next
    assume lt: "ucast tile_index < tile_count"
    then have ilt: "?i < unat tile_count" using ui by (simp add: word_less_nat_alt)
    then have fits: "16 + 8 * ?i + 8 \<le> length ?c" using dir by linarith
    have nle: "\<not> tile_count \<le> ucast tile_index" using lt by simp
    have sk: "fseeko (fd\<lparr>f_pos := 16\<rparr>) (int (?i * sizeof_uint64)) SEEK_CUR =
                fd\<lparr>f_pos := 16 + 8 * ?i\<rparr>"
      unfolding sizeof_uint64_def by (subst fseeko_cur_nat) (simp add: mult.commute)
    have r2: "read_bytes (fd\<lparr>f_pos := 16 + 8 * ?i\<rparr>) 8 =
                Inr (take 8 (drop (16 + 8 * ?i) ?c), fd\<lparr>f_pos := 16 + 8 * ?i + 8\<rparr>)"
      using fits by (simp add: read_bytes_ok)
    have l2: "length (take 8 (drop (16 + 8 * ?i) ?c)) = 8" using fits by simp
    show "get_tile_infomation_version2 minor fd tile_index =
              Inr (offset_at ?c ?i,
                   (if ucast tile_index = tile_count - 1
                    then word_of_nat (length ?c)
                    else offset_at ?c (?i + 1))
                   - offset_at ?c ?i)"
    proof (cases "ucast tile_index = tile_count - 1")
      case True
      have "ftello (fseeko (fd\<lparr>f_pos := 16 + 8 * ?i + 8\<rparr>) 0 SEEK_END) = length ?c"
        by (simp add: ftello_def fseeko_def)
      then show ?thesis
        using r1 count nle sk r2 l2 True len16
        by (simp add: get_tile_infomation_version2_def Let_def sizeof_uint64_def offset_at_def)
    next
      case False
      have "1 \<le> tile_count" using ilt by (simp add: word_le_nat_alt)
      then have "unat (tile_count - 1) = unat tile_count - 1"
        by (simp add: unat_sub)
      with False ui have "?i \<noteq> unat tile_count - 1"
        by (metis word_unat_eq_iff)
      with ilt have "?i + 1 < unat tile_count" by linarith
      then have fits3: "16 + 8 * ?i + 8 + 8 \<le> length ?c" using dir by linarith
      have r3: "read_bytes (fd\<lparr>f_pos := 16 + 8 * ?i + 8\<rparr>) 8 =
                Inr (take 8 (drop (16 + 8 * (?i + 1)) ?c), fd\<lparr>f_pos := 16 + 8 * ?i + 8 + 8\<rparr>)"
        using fits3 by (simp add: read_bytes_ok add_ac)
      have l3: "length (take 8 (drop (16 + 8 * (?i + 1)) ?c)) = 8" using fits3 by simp
      show ?thesis
        using r1 count nle sk r2 l2 False r3 l3 len16
        by (simp add: get_tile_infomation_version2_def Let_def sizeof_uint64_def offset_at_def)
    qed
  qed
qed

theorem major2_tile_location_witness:
  "get_tile_infomation_version2 0
     \<lparr>f_content = replicate 8 0 @ u64_bytes 3 @ u64_bytes 16 @ u64_bytes 300016 @
                   u64_bytes 700016 @ replicate 999960 0, f_pos = 0\<rparr> 2 =
     Inr (700016, 299984) \<and>
   get_tile_infomation_version2 0
     \<lparr>f_content = replicate 8 0 @ u64_bytes 3 @ u64_bytes 16 @ u64_bytes 300016 @
                   u64_bytes 700016 @ replicate 999960 0, f_pos = 0\<rparr> 0 =
     Inr (16, 300000) \<and>
   get_tile_infomation_version2 0
     \<lparr>f_content = replicate 8 0 @ u64_bytes 3 @ u64_bytes 16 @ u64_bytes 300016 @
                   u64_bytes 700016 @ replicate 999960 0, f_pos = 0\<rparr> 3 =
     Inl (GError Tile_Index_Invalid) \<and>
   length (replicate 8 (0::byte) @ u64_bytes 3 @ u64_bytes 16 @ u64_bytes 300016 @
                   u64_bytes 700016 @ replicate 999960 0) = 1000000"
proof -
  define bs where "bs = replicate 8 (0::byte) @ u64_bytes 3 @ u64_bytes 16 @
                     u64_bytes 300016 @ u64_bytes 700016 @ replicate 999960 0"
  define fd where "fd = \<lparr>f_content = bs, f_pos = 0\<rparr>"
  have len: "length bs = 1000000" by (simp add: bs_def)
  have count: "le_u64 (take 8 (drop 8 (f_content fd))) = 3"
    by (simp add: fd_def bs_def le_u64_bytes)
  have dir: "16 + 8 * unat (3 :: 64 word) \<le> length (f_content fd)"
    by (simp add: fd_def len)
  have o: "offset_at bs 0 = 16" "offset_at bs (Suc 0) = 300016" "offset_at bs 2 = 700016"
    by (simp_all add: offset_at_def bs_def le_u64_bytes)
  note T = major2_tile_location [OF count dir, where minor = 0]
  have "ucast (2 :: 32 word) < (3 :: 64 word)" by simp
  from T [where tile_index = 2, THEN conjunct2, THEN mp, OF this]
  have t2: "get_tile_infomation_version2 0 fd 2 = Inr (700016, 299984)"
    by (simp add: fd_def o len)
  have "ucast (0 :: 32 word) < (3 :: 64 word)" by simp
  from T [where tile_index = 0, THEN conjunct2, THEN mp, OF this]
  have t0: "get_tile_infomation_version2 0 fd 0 = Inr (16, 300000)"
    by (simp add: fd_def o len)
  have "(3 :: 64 word) \<le> ucast (3 :: 32 word)" by simp
  from T [where tile_index = 3, THEN conjunct1, THEN mp, OF this]
  have t3: "get_tile_infomation_version2 0 fd 3 = Inl (GError Tile_Index_Invalid)" .
  show ?thesis
    using t2 t0 t3 len unfolding fd_def bs_def by (intro conjI)
qed

text \<open>
  C7, as the code has it. The version 1 locator asks \<open>_read_bytes\<close> for 0 bytes when it
  means to read \<open>tiles_x\<close>: the comparison with \<open>sizeof\<close> sits inside the argument list.
  \<open>_read_bytes\<close> divides by its block size, which is then 0, so the first read ends the
  process, for each of the minor versions 0, 1, 2, on every file, layer and index. No
  count, offset or size is ever read from the file.
\<close>

theorem version1_locator_crashes:
  "get_tile_infomation_version1 0 fd layer tile_index = Inl (Crash Division_By_Zero) \<and>
   get_tile_infomation_version1 1 fd layer tile_index = Inl (Crash Division_By_Zero) \<and>
   get_tile_infomation_version1 2 fd layer tile_index = Inl (Crash Division_By_Zero)"
  by (simp add: get_tile_infomation_version1_def read_bytes_zero)

text \<open>
  C9, as the code has it. The tile is the four bytes of \<open>tile_bytes_example\<close> at offset 0
  and the buffer held the byte \<open>AA\<close> everywhere before. A decoder that accepts exactly the
  stream of the claim (the ten bytes of \<open>jpegHeader\<close>, then the tile, of length 14) fails;
  a decoder that accepts exactly ten bytes \<open>AA\<close>, then the tile, with the length 4 of the
  tile alone, succeeds.
\<close>

theorem version1_decoder_gets_no_prefix:
  "get_tile_data_version1 fs_example
      (codec_expecting (jpegHeader @ tile_bytes_example) 14)
      (\<lambda>i. 0xAA) ''s-level0.img'' 0 4 256 256 = Inl (GError Failed_To_Decode_Data) \<and>
   get_tile_data_version1 fs_example
      (codec_expecting (replicate 10 0xAA @ tile_bytes_example) 4)
      (\<lambda>i. 0xAA) ''s-level0.img'' 0 4 256 256 = Inr ()"
proof -
  have f: "fs_example ''s-level0.img'' = Some tile_bytes_example"
    by (simp add: fs_example_def)
  have a: "(0::int) \<le> sint (0 :: 64 word)" "0 < unat (4 :: 64 word)"
    "nat (sint (0 :: 64 word)) + unat (4 :: 64 word) \<le> length tile_bytes_example"
    by (simp_all add: tile_bytes_example_def)
  have l: "length jpegHeader = 10" by (simp add: jpegHeader_def)
  have m: "map (\<lambda>i. 0xAA :: byte) [0 ..< length jpegHeader] = replicate 10 0xAA"
    by (simp only: map_replicate_const length_upt l diff_zero)
  note h = get_tile_data_version1_handover [where fs = fs_example
      and layer_filename = "''s-level0.img''" and bs = tile_bytes_example and offset = 0
      and sz = 4 and uninit = "\<lambda>i. 0xAA", OF f a, unfolded m]
  show ?thesis
    unfolding h
    by (simp add: codec_expecting_def tile_bytes_example_def jpegHeader_def)
qed

subsection \<open>Detection\<close>

text \<open>The two loops of \<open>vsf_detect\<close> succeed exactly when every image file they ask
  for is there.\<close>

lemma has_file_iff:
  "has_file_name_for_layer after fs c fn level fp = Inr True \<longleftrightarrow>
     (\<exists>name. create_file_name_for_layer after c fn level fp = Inr name \<and> fs name \<noteq> None)"
  by (auto simp: has_file_name_for_layer_def openslide_fopen_def split: sum.splits option.splits)

lemma sint_le_succ_cases:
  fixes p q h :: "32 word"
  assumes "sint p < sint h"
  shows "sint p \<le> sint q \<longleftrightarrow> q = p \<or> sint (p + 1) \<le> sint q"
proof -
  have "sint (p + 1) = sint p + 1" using assms by (rule sint_succ_less)
  moreover have "sint q = sint p \<longleftrightarrow> q = p" by (auto intro: signed_word_eqI)
  ultimately show ?thesis by auto
qed

lemma detect_focal_planes_iff:
  "detect_focal_planes after fs c fn level fp = Inr True \<longleftrightarrow>
     (\<forall>q. sint fp \<le> sint q \<and> sint q < sint (highest_focal_plane_index c) \<longrightarrow>
          has_file_name_for_layer after fs c fn level q = Inr True)"
proof (induction after fs c fn level fp rule: detect_focal_planes.induct)
  case (1 after fs c fn level fp)
  show ?case
  proof (cases "sint fp < sint (highest_focal_plane_index c)")
    case False
    then show ?thesis by (subst detect_focal_planes.simps) auto
  next
    case True
    note split = sint_le_succ_cases [OF True]
    show ?thesis
    proof (cases "has_file_name_for_layer after fs c fn level fp")
      case (Inl f)
      then have "detect_focal_planes after fs c fn level fp = Inl f"
        using True by (subst detect_focal_planes.simps) simp
      moreover have "\<not> (\<forall>q. sint fp \<le> sint q \<and> sint q < sint (highest_focal_plane_index c) \<longrightarrow>
          has_file_name_for_layer after fs c fn level q = Inr True)"
        using True Inl by (auto intro!: exI [of _ fp])
      ultimately show ?thesis by simp
    next
      case (Inr present)
      show ?thesis
      proof (cases present)
        case False
        then have "detect_focal_planes after fs c fn level fp = Inr False"
          using True Inr by (subst detect_focal_planes.simps) simp
        moreover have "\<not> (\<forall>q. sint fp \<le> sint q \<and> sint q < sint (highest_focal_plane_index c) \<longrightarrow>
          has_file_name_for_layer after fs c fn level q = Inr True)"
          using True Inr False by (auto intro!: exI [of _ fp])
        ultimately show ?thesis by simp
      next
        case p: True
        have step: "detect_focal_planes after fs c fn level fp =
                    detect_focal_planes after fs c fn level (fp + 1)"
          using True Inr p by (subst detect_focal_planes.simps) simp
        have ih: "detect_focal_planes after fs c fn level (fp + 1) = Inr True \<longleftrightarrow>
            (\<forall>q. sint (fp + 1) \<le> sint q \<and> sint q < sint (highest_focal_plane_index c) \<longrightarrow>
               has_file_name_for_layer after fs c fn level q = Inr True)"
          using "1.IH" [OF True Inr] p by simp
        show ?thesis
          unfolding step ih using Inr p True by (auto simp: split)
      qed
    qed
  qed
qed

lemma word_le_succ_cases:
  fixes l m :: "'a::len word"
  assumes "l < h"
  shows "l \<le> m \<longleftrightarrow> m = l \<or> l + 1 \<le> m"
proof -
  have "unat (l + 1) = unat l + 1" using assms by (rule unat_succ_less)
  then show ?thesis by (auto simp: word_le_nat_alt word_unat_eq_iff)
qed

lemma detect_levels_iff:
  "detect_levels after fs c fn level = Inr True \<longleftrightarrow>
     (\<forall>l. level \<le> l \<and> l < level_count c \<longrightarrow>
          detect_focal_planes after fs c fn l (lowest_focal_plane_index c) = Inr True)"
proof (induction after fs c fn level rule: detect_levels.induct)
  case (1 after fs c fn level)
  show ?case
  proof (cases "level < level_count c")
    case False
    then show ?thesis by (subst detect_levels.simps) auto
  next
    case True
    note split = word_le_succ_cases [OF True]
    show ?thesis
    proof (cases "detect_focal_planes after fs c fn level (lowest_focal_plane_index c)")
      case (Inl f)
      then have "detect_levels after fs c fn level = Inl f"
        using True by (subst detect_levels.simps) simp
      moreover have "\<not> (\<forall>l. level \<le> l \<and> l < level_count c \<longrightarrow>
          detect_focal_planes after fs c fn l (lowest_focal_plane_index c) = Inr True)"
        using True Inl by (auto intro!: exI [of _ level])
      ultimately show ?thesis by simp
    next
      case (Inr ok)
      show ?thesis
      proof (cases ok)
        case False
        then have "detect_levels after fs c fn level = Inr False"
          using True Inr by (subst detect_levels.simps) simp
        moreover have "\<not> (\<forall>l. level \<le> l \<and> l < level_count c \<longrightarrow>
          detect_focal_planes after fs c fn l (lowest_focal_plane_index c) = Inr True)"
          using True Inr False by (auto intro!: exI [of _ level])
        ultimately show ?thesis by simp
      next
        case p: True
        have step: "detect_levels after fs c fn level = detect_levels after fs c fn (level + 1)"
          using True Inr p by (subst detect_levels.simps) simp
        have ih: "detect_levels after fs c fn (level + 1) = Inr True \<longleftrightarrow>
            (\<forall>l. level + 1 \<le> l \<and> l < level_count c \<longrightarrow>
               detect_focal_planes after fs c fn l (lowest_focal_plane_index c) = Inr True)"
          using "1.IH" [OF True Inr] p by simp
        show ?thesis
          unfolding step ih using Inr p True by (auto simp: split)
      qed
    qed
  qed
qed

lemma detect_iff_sidecars:
  "vsf_detect after fs filename False = Inr True \<longleftrightarrow>
     (\<exists>content. read_index_file fs filename = Inr content \<and>
                sidecars_present after fs content filename)"
proof (cases "read_index_file fs filename")
  case (Inl f)
  then show ?thesis by (cases f) (simp_all add: vsf_detect_def)
next
  case (Inr content)
  have "detect_levels after fs content filename 0 = Inr True \<longleftrightarrow>
          sidecars_present after fs content filename"
    unfolding detect_levels_iff detect_focal_planes_iff has_file_iff sidecars_present_def
    by auto
  then show ?thesis using Inr by (simp add: vsf_detect_def)
qed

text \<open>When \<open>_read_index_file\<close> succeeds, and what it has read then.\<close>

lemma product_version_cases:
  assumes "product_version h = Some (major, minor)"
  shows "(major = 1 \<and> minor \<in> {0, 1, 2}) \<or> major = 2"
  using assms by (auto simp: product_version_def split: if_splits)

lemma read_content_major1:
  assumes "major_version c = 1" "minor_version c \<in> {0, 1, 2}"
  shows "read_index_file_content fd c =
           (if major1_seek (minor_version c) + 16 \<le> length (f_content fd)
            then Inr (c\<lparr>r_channel := 255, g_channel := 255, b_channel := 255,
                      lowest_focal_plane_index := 0, highest_focal_plane_index := 0,
                      quality := 0, format := tile_format_jpeg, z_range := 0,
                      level_count := 9, resolution_x := 0, resolution_y := 0,
                      size_x := le_u32 (take 4 (drop (major1_seek (minor_version c)) (f_content fd))),
                      size_y := le_u32 (take 4 (drop (major1_seek (minor_version c) + 4) (f_content fd))),
                      tile_size_x := le_u32 (take 4 (drop (major1_seek (minor_version c) + 8) (f_content fd))),
                      tile_size_y := le_u32 (take 4 (drop (major1_seek (minor_version c) + 12) (f_content fd)))\<rparr>)
            else Inl (GError Failed_Parsing_Header))"
proof (cases "major1_seek (minor_version c) + 16 \<le> length (f_content fd)")
  case True
  show ?thesis
    unfolding read1_unfold [OF assms] using True by (simp add: major1_fields_ok)
next
  case False
  then have "length (f_content fd) < major1_seek (minor_version c) + 16" by simp
  then show ?thesis
    unfolding read1_unfold [OF assms] using False by (simp add: major1_fields_short)
qed

lemma read_content_major2:
  assumes "major_version c = 2"
  shows "read_index_file_content fd c =
           (if (if minor_version c = 0 then 60 else 72) \<le> length (f_content fd)
            then Inr (copy_packed_header
                        (take (if minor_version c = 0 then 60 else 72) (f_content fd))
                        (c\<lparr>r_channel := 255, g_channel := 255, b_channel := 255,
                           lowest_focal_plane_index := 0, highest_focal_plane_index := 0,
                           quality := 0, format := tile_format_jpeg, z_range := 0,
                           level_count := 9, resolution_x := 0, resolution_y := 0\<rparr>))
            else Inl (GError Failed_Parsing_Header))"
proof -
  define n :: nat where "n = (if minor_version c = 0 then 60 else 72)"
  have n: "0 < n" by (simp add: n_def)
  have seek: "fseeko fd 0 SEEK_SET = fd\<lparr>f_pos := 0\<rparr>" by (simp add: fseeko_set)
  have unf: "read_index_file_content fd c =
      (case read_bytes (fd\<lparr>f_pos := 0\<rparr>) n of
                 Inl f \<Rightarrow> Inl f
               | Inr (d, fd1) \<Rightarrow>
                   if length d \<noteq> n then Inl (GError Failed_Parsing_Header)
                   else Inr (copy_packed_header d (c\<lparr>r_channel := 255, g_channel := 255, b_channel := 255,
                           lowest_focal_plane_index := 0, highest_focal_plane_index := 0,
                           quality := 0, format := tile_format_jpeg, z_range := 0,
                           level_count := 9, resolution_x := 0, resolution_y := 0\<rparr>)))"
    using assms unfolding n_def by (simp add: read_index_file_content_def Let_def seek)
  show ?thesis
  proof (cases "n \<le> length (f_content fd)")
    case True
    then have "read_bytes (fd\<lparr>f_pos := 0\<rparr>) n =
                 Inr (take n (f_content fd), fd\<lparr>f_pos := n\<rparr>)"
      using read_bytes_ok [OF n, of "fd\<lparr>f_pos := 0\<rparr>"] by simp
    then show ?thesis unfolding unf using True by (simp add: n_def)
  next
    case False
    then obtain d fd' where "read_bytes (fd\<lparr>f_pos := 0\<rparr>) n = Inr (d, fd')" "length d < n"
      using read_bytes_short [OF n, of "fd\<lparr>f_pos := 0\<rparr>"] by auto
    then show ?thesis unfolding unf using False by (simp add: n_def)
  qed
qed

lemma read_index_file_iff:
  "read_index_file fs filename = Inr content \<longleftrightarrow>
     4 < length filename \<and>
     extension_matches (drop (length filename - 4) filename) ''.vsf'' \<and>
     (\<exists>bs major minor. fs filename = Some bs \<and> 6 \<le> length bs \<and>
         product_version (take 6 bs) = Some (major, minor) \<and>
         read_index_file_content \<lparr>f_content = bs, f_pos = 6\<rparr>
           (blank_content\<lparr>header := take 6 bs, major_version := major,
                          minor_version := minor\<rparr>) = Inr content)"
proof (cases "fs filename")
  case None
  then show ?thesis by (simp add: read_index_file_def openslide_fopen_def Let_def)
next
  case (Some bs)
  have six: "0 < (6::nat)" by simp
  show ?thesis
  proof (cases "6 \<le> length bs")
    case True
    then have "read_bytes \<lparr>f_content = bs, f_pos = 0\<rparr> 6 =
                 Inr (take 6 bs, \<lparr>f_content = bs, f_pos = 6\<rparr>)"
      using read_bytes_ok [OF six, of "\<lparr>f_content = bs, f_pos = 0\<rparr>"] by simp
    then show ?thesis using Some True
      by (auto simp: read_index_file_def openslide_fopen_def Let_def split: option.splits)
  next
    case False
    then obtain d fd' where "read_bytes \<lparr>f_content = bs, f_pos = 0\<rparr> 6 = Inr (d, fd')"
      "length d < 6"
      using read_bytes_short [OF six, of "\<lparr>f_content = bs, f_pos = 0\<rparr>"] by auto
    then show ?thesis using Some False
      by (auto simp: read_index_file_def openslide_fopen_def Let_def split: option.splits)
  qed
qed

lemma read_index_file_ok_iff:
  "(\<exists>content. read_index_file fs filename = Inr content) \<longleftrightarrow>
     4 < length filename \<and>
     extension_matches (drop (length filename - 4) filename) ''.vsf'' \<and>
     (\<exists>bs major minor. fs filename = Some bs \<and> 6 \<le> length bs \<and>
         product_version (take 6 bs) = Some (major, minor) \<and>
         header_extent major minor \<le> length bs)"
proof -
  have ok: "(\<exists>content. read_index_file_content \<lparr>f_content = bs, f_pos = 6\<rparr>
                 (blank_content\<lparr>header := take 6 bs, major_version := major,
                                minor_version := minor\<rparr>) = Inr content) \<longleftrightarrow>
             header_extent major minor \<le> length bs"
    if pv: "product_version (take 6 bs) = Some (major, minor)" for bs major minor
  proof -
    from product_version_cases [OF pv] show ?thesis
    proof
      assume "major = 1 \<and> minor \<in> {0, 1, 2}"
      then show ?thesis
        using read_content_major1 [of "blank_content\<lparr>header := take 6 bs, major_version := major,
                                minor_version := minor\<rparr>" "\<lparr>f_content = bs, f_pos = 6\<rparr>"]
        by (simp add: header_extent_def)
    next
      assume "major = 2"
      then show ?thesis
        using read_content_major2 [of "blank_content\<lparr>header := take 6 bs, major_version := major,
                                minor_version := minor\<rparr>" "\<lparr>f_content = bs, f_pos = 6\<rparr>"]
        by (simp add: header_extent_def)
    qed
  qed
  show ?thesis
    unfolding read_index_file_iff using ok by blast
qed

lemma take_drop_prefix:
  "k + 4 \<le> n \<Longrightarrow> take 4 (drop k (take n bs)) = take 4 (drop k bs)"
  by (simp add: drop_take)

lemma read_index_file_fields:
  assumes r: "read_index_file fs filename = Inr content" and f: "fs filename = Some bs"
  shows "product_version (take 6 bs) = Some (major_version content, minor_version content)"
    and "major_version content = 1 \<Longrightarrow>
           level_count content = 9 \<and> lowest_focal_plane_index content = 0 \<and>
           highest_focal_plane_index content = 0"
    and "major_version content = 2 \<Longrightarrow>
           level_count content = bs ! 30 \<and>
           lowest_focal_plane_index content =
             (if minor_version content = 0 then 0 else le_u32 (take 4 (drop 60 bs))) \<and>
           highest_focal_plane_index content =
             (if minor_version content = 0 then 0 else le_u32 (take 4 (drop 64 bs)))"
proof -
  from r f obtain major minor where pv: "product_version (take 6 bs) = Some (major, minor)"
    and c: "read_index_file_content \<lparr>f_content = bs, f_pos = 6\<rparr>
           (blank_content\<lparr>header := take 6 bs, major_version := major,
                          minor_version := minor\<rparr>) = Inr content"
    unfolding read_index_file_iff by auto
  let ?c0 = "blank_content\<lparr>header := take 6 bs, major_version := major,
                          minor_version := minor\<rparr>"
  let ?fd = "\<lparr>f_content = bs, f_pos = 6\<rparr>"
  have both: "major_version content = major \<and> minor_version content = minor \<and>
     (major = 1 \<longrightarrow> level_count content = 9 \<and> lowest_focal_plane_index content = 0 \<and>
           highest_focal_plane_index content = 0) \<and>
     (major = 2 \<longrightarrow> level_count content = bs ! 30 \<and>
           lowest_focal_plane_index content =
             (if minor = 0 then 0 else le_u32 (take 4 (drop 60 bs))) \<and>
           highest_focal_plane_index content =
             (if minor = 0 then 0 else le_u32 (take 4 (drop 64 bs))))"
    using product_version_cases [OF pv]
  proof
    assume m: "major = 1 \<and> minor \<in> {0, 1, 2}"
    then have "major_version ?c0 = 1" "minor_version ?c0 \<in> {0, 1, 2}" by simp_all
    from read_content_major1 [OF this, of ?fd] c m show ?thesis
      by (auto split: if_splits)
  next
    assume m: "major = 2"
    then have "major_version ?c0 = 2" by simp
    from read_content_major2 [OF this, of ?fd] c m show ?thesis
      by (cases "minor = 0")
         (auto simp: copy_packed_header_def Let_def take_drop_prefix split: if_splits)
  qed
  from both pv show "product_version (take 6 bs) = Some (major_version content, minor_version content)"
    by simp
  from both show "major_version content = 1 \<Longrightarrow>
           level_count content = 9 \<and> lowest_focal_plane_index content = 0 \<and>
           highest_focal_plane_index content = 0" by simp
  from both show "major_version content = 2 \<Longrightarrow>
           level_count content = bs ! 30 \<and>
           lowest_focal_plane_index content =
             (if minor_version content = 0 then 0 else le_u32 (take 4 (drop 60 bs))) \<and>
           highest_focal_plane_index content =
             (if minor_version content = 0 then 0 else le_u32 (take 4 (drop 64 bs)))" by simp
qed

lemma index_bytes_example_facts:
  "length index_bytes_example = 72"
  "take 6 index_bytes_example = [0x56, 0x53, 0x46, 0x32, 0x2E, 0x31]"
  "index_bytes_example ! 30 = 1"
  "take 4 (drop 60 index_bytes_example) = u32_bytes 0"
  "take 4 (drop 64 index_bytes_example) = u32_bytes 1"
  by (simp_all add: index_bytes_example_def u32_bytes_def nat_bytes_4 nth_append)

lemma char_of_48: "char_of (48::nat) = CHR ''0''"
  by code_simp

lemma decimal_digit_0: "decimal 0 = ''0''"
  by (simp add: decimal.simps char_of_48)

text \<open>The version test and the extension test, byte by byte. \<open>char\<close> is signed: a byte
  is at least \<open>2\<close> as a character when it lies between \<open>0x32\<close> and \<open>0x7F\<close>.\<close>

lemma sint_byte: "sint (b :: byte) = (if uint b < 128 then uint b else uint b - 256)"
proof -
  have r: "0 \<le> uint b" "uint b < 256"
    using uint_lt2p [of b] by simp_all
  have "sint b = (uint b + 128) mod 256 - 128"
    by (simp add: sint_uint signed_take_bit_eq_take_bit_shift take_bit_eq_mod)
  also have "\<dots> = (if uint b < 128 then uint b else uint b - 256)"
  proof (cases "uint b < 128")
    case True
    then have "(uint b + 128) mod 256 = uint b + 128" using r by simp
    then show ?thesis using True by simp
  next
    case False
    then have "(uint b + 128) mod 256 = uint b + 128 - 256"
      using r by (simp add: mod_pos_geq)
    then show ?thesis using False by simp
  qed
  finally show ?thesis .
qed

lemma sbyte_ge: "(0x32 \<le> sint (b :: byte)) = (0x32 \<le> b \<and> b \<le> 0x7F)"
  using uint_lt2p [of b] by (auto simp: sint_byte word_le_def)

lemma sbyte_digit:
  "(0x30 \<le> sint (b :: byte) \<and> sint b \<le> 0x39) = (0x30 \<le> b \<and> b \<le> 0x39)"
  using uint_lt2p [of b] by (auto simp: sint_byte word_le_def)

lemma product_version_explicit:
  "product_version h = Some (major, minor) \<longleftrightarrow>
     h ! 1 = 0x31 \<and> (h ! 3 = 0x30 \<or> h ! 3 = 0x31 \<or> h ! 3 = 0x32) \<and>
       major = 1 \<and> minor = h ! 3 - 0x30 \<or>
     h ! 1 \<noteq> 0x31 \<and> 0x32 \<le> h ! 3 \<and> h ! 3 \<le> 0x7F \<and> 0x30 \<le> h ! 5 \<and> h ! 5 \<le> 0x39 \<and>
       major = 2 \<and> minor = h ! 5 - 0x30"
proof -
  have v: "(0x32 \<le> sint (h ! 3) \<and> 0x30 \<le> sint (h ! 5) \<and> sint (h ! 5) \<le> 0x39) =
           (0x32 \<le> h ! 3 \<and> h ! 3 \<le> 0x7F \<and> 0x30 \<le> h ! 5 \<and> h ! 5 \<le> 0x39)"
    using sbyte_ge [of "h ! 3"] sbyte_digit [of "h ! 5"] by blast
  show ?thesis
    unfolding product_version_def v by auto
qed

lemma char_code_lt: "of_char c < (256 :: nat)"
  by (cases c) (simp add: of_char_Char)

lemma lowered_eq:
  assumes e: "of_char e = (k :: nat)"
  shows "(if of_char c \<ge> (65::nat) \<and> of_char c \<le> (90::nat)
          then char_of (of_char c + (32::nat)) else c) = e \<longleftrightarrow>
         (if (65::nat) \<le> of_char c \<and> of_char c \<le> (90::nat) then of_char c + 32 = k
          else of_char c = k)"
proof -
  have ce: "c = e \<longleftrightarrow> of_char c = k"
    using e of_char_eq_iff [of c e, where ?'a = nat] by simp
  have ee: "e = char_of k" using e by (metis char_of_char)
  have kl: "k < 256" using e char_code_lt [of e] by simp
  show ?thesis
  proof (cases "of_char c \<ge> (65::nat) \<and> of_char c \<le> (90::nat)")
    case True
    then have "of_char c + 32 < (256::nat)" by simp
    then have "char_of (of_char c + (32::nat)) = e \<longleftrightarrow> of_char c + 32 = k"
      unfolding ee char_of_quasi_inj using kl by simp
    then show ?thesis using True by simp
  next
    case False
    then show ?thesis using ce by auto
  qed
qed

lemma char_eq_code: "c = e \<longleftrightarrow> of_char c = (of_char e :: nat)"
  by (simp add: of_char_eq_iff)

lemma lowered_letters:
  "(if of_char c \<ge> (65::nat) \<and> of_char c \<le> (90::nat)
    then char_of (of_char c + (32::nat)) else c) = CHR ''.'' \<longleftrightarrow> c = CHR ''.''"
  "(if of_char c \<ge> (65::nat) \<and> of_char c \<le> (90::nat)
    then char_of (of_char c + (32::nat)) else c) = CHR ''v'' \<longleftrightarrow> c = CHR ''v'' \<or> c = CHR ''V''"
  "(if of_char c \<ge> (65::nat) \<and> of_char c \<le> (90::nat)
    then char_of (of_char c + (32::nat)) else c) = CHR ''s'' \<longleftrightarrow> c = CHR ''s'' \<or> c = CHR ''S''"
  "(if of_char c \<ge> (65::nat) \<and> of_char c \<le> (90::nat)
    then char_of (of_char c + (32::nat)) else c) = CHR ''f'' \<longleftrightarrow> c = CHR ''f'' \<or> c = CHR ''F''"
proof -
  have k: "of_char CHR ''.'' = (46::nat)" "of_char CHR ''v'' = (118::nat)"
    "of_char CHR ''s'' = (115::nat)" "of_char CHR ''f'' = (102::nat)"
    "of_char CHR ''V'' = (86::nat)" "of_char CHR ''S'' = (83::nat)"
    "of_char CHR ''F'' = (70::nat)"
    by simp_all
  show "(if of_char c \<ge> (65::nat) \<and> of_char c \<le> (90::nat)
    then char_of (of_char c + (32::nat)) else c) = CHR ''.'' \<longleftrightarrow> c = CHR ''.''"
    unfolding lowered_eq [OF k(1)] char_eq_code [of c] k by auto
  show "(if of_char c \<ge> (65::nat) \<and> of_char c \<le> (90::nat)
    then char_of (of_char c + (32::nat)) else c) = CHR ''v'' \<longleftrightarrow> c = CHR ''v'' \<or> c = CHR ''V''"
    unfolding lowered_eq [OF k(2)] char_eq_code [of c] k by auto
  show "(if of_char c \<ge> (65::nat) \<and> of_char c \<le> (90::nat)
    then char_of (of_char c + (32::nat)) else c) = CHR ''s'' \<longleftrightarrow> c = CHR ''s'' \<or> c = CHR ''S''"
    unfolding lowered_eq [OF k(3)] char_eq_code [of c] k by auto
  show "(if of_char c \<ge> (65::nat) \<and> of_char c \<le> (90::nat)
    then char_of (of_char c + (32::nat)) else c) = CHR ''f'' \<longleftrightarrow> c = CHR ''f'' \<or> c = CHR ''F''"
    unfolding lowered_eq [OF k(4)] char_eq_code [of c] k by auto
qed

lemma extension_vsf:
  "extension_matches ext ''.vsf'' \<longleftrightarrow>
     (\<exists>e1 e2 e3. ext = [CHR ''.'', e1, e2, e3] \<and>
        (e1 = CHR ''v'' \<or> e1 = CHR ''V'') \<and> (e2 = CHR ''s'' \<or> e2 = CHR ''S'') \<and>
        (e3 = CHR ''f'' \<or> e3 = CHR ''F''))"
proof (cases ext)
  case Nil
  then show ?thesis by simp
next
  case (Cons a r1)
  show ?thesis
  proof (cases r1)
    case Nil
    then show ?thesis using Cons by simp
  next
    case (Cons b r2)
    note c2 = Cons
    show ?thesis
    proof (cases r2)
      case Nil
      then show ?thesis using \<open>ext = a # r1\<close> c2 by simp
    next
      case (Cons c r3)
      note c3 = Cons
      show ?thesis
      proof (cases r3)
        case Nil
        then show ?thesis using \<open>ext = a # r1\<close> c2 c3 by simp
      next
        case (Cons d r4)
        show ?thesis
        proof (cases r4)
          case Nil
          have "extension_matches [a, b, c, d] ''.vsf'' \<longleftrightarrow>
                  a = CHR ''.'' \<and> (b = CHR ''v'' \<or> b = CHR ''V'') \<and>
                  (c = CHR ''s'' \<or> c = CHR ''S'') \<and> (d = CHR ''f'' \<or> d = CHR ''F'')"
            by (simp only: extension_matches.simps lowered_letters simp_thms)
          then show ?thesis using \<open>ext = a # r1\<close> c2 c3 Cons Nil by auto
        next
          case (Cons x r5)
          then show ?thesis using \<open>ext = a # r1\<close> c2 c3 \<open>r3 = d # r4\<close> by simp
        qed
      qed
    qed
  qed
qed

lemma filename_ext_iff:
  "4 < length filename \<and> extension_matches (drop (length filename - 4) filename) ''.vsf'' \<longleftrightarrow>
     (\<exists>stem e1 e2 e3. filename = stem @ [CHR ''.'', e1, e2, e3] \<and> stem \<noteq> [] \<and>
        (e1 = CHR ''v'' \<or> e1 = CHR ''V'') \<and> (e2 = CHR ''s'' \<or> e2 = CHR ''S'') \<and>
        (e3 = CHR ''f'' \<or> e3 = CHR ''F''))"
proof
  assume a: "4 < length filename \<and>
             extension_matches (drop (length filename - 4) filename) ''.vsf''"
  then obtain e1 e2 e3 where d: "drop (length filename - 4) filename = [CHR ''.'', e1, e2, e3]"
    and e: "e1 = CHR ''v'' \<or> e1 = CHR ''V''" "e2 = CHR ''s'' \<or> e2 = CHR ''S''"
           "e3 = CHR ''f'' \<or> e3 = CHR ''F''"
    unfolding extension_vsf by blast
  have "filename = take (length filename - 4) filename @ [CHR ''.'', e1, e2, e3]"
    using append_take_drop_id [of "length filename - 4" filename] d by simp
  moreover have "take (length filename - 4) filename \<noteq> []" using a by auto
  ultimately show "\<exists>stem e1 e2 e3. filename = stem @ [CHR ''.'', e1, e2, e3] \<and> stem \<noteq> [] \<and>
        (e1 = CHR ''v'' \<or> e1 = CHR ''V'') \<and> (e2 = CHR ''s'' \<or> e2 = CHR ''S'') \<and>
        (e3 = CHR ''f'' \<or> e3 = CHR ''F'')"
    using e by blast
next
  assume "\<exists>stem e1 e2 e3. filename = stem @ [CHR ''.'', e1, e2, e3] \<and> stem \<noteq> [] \<and>
        (e1 = CHR ''v'' \<or> e1 = CHR ''V'') \<and> (e2 = CHR ''s'' \<or> e2 = CHR ''S'') \<and>
        (e3 = CHR ''f'' \<or> e3 = CHR ''F'')"
  then obtain stem e1 e2 e3 where f: "filename = stem @ [CHR ''.'', e1, e2, e3]"
    and s: "stem \<noteq> []"
    and e: "e1 = CHR ''v'' \<or> e1 = CHR ''V''" "e2 = CHR ''s'' \<or> e2 = CHR ''S''"
           "e3 = CHR ''f'' \<or> e3 = CHR ''F''"
    by blast
  have l: "4 < length filename" using f s by (cases stem) simp_all
  have "drop (length filename - 4) filename = [CHR ''.'', e1, e2, e3]"
    unfolding f by simp
  then have "extension_matches (drop (length filename - 4) filename) ''.vsf''"
    unfolding extension_vsf using e by blast
  with l show "4 < length filename \<and>
               extension_matches (drop (length filename - 4) filename) ''.vsf''" ..
qed

text \<open>With a zero behind the name, the name built for major version 2 is the one the
  spec gives.\<close>

lemma sidecar_name_built:
  assumes "major_version c = 2" "4 \<le> length filename"
    "after (sidecar_name filename level fp) = []"
  shows "create_file_name_for_layer after c filename level fp =
           Inr (sidecar_name filename level fp)"
proof -
  have w: "create_file_name_for_layer after c filename level fp =
             Inr (sidecar_name filename level fp @ after (sidecar_name filename level fp))"
    using assms(1,2)
    by (simp add: create_file_name_for_layer_def create_file_name_with_extension_def
          sidecar_name_def Let_def)
  show ?thesis unfolding w assms(3) by simp
qed

text \<open>The header test on the bytes of the index file, and what the loops of
  \<open>vsf_detect\<close> then ask of the file system.\<close>

lemma header_explicit:
  assumes six: "6 \<le> length bs"
  shows "(\<exists>major minor. product_version (take 6 bs) = Some (major, minor) \<and>
            header_extent major minor \<le> length bs \<and> major = 1) \<longleftrightarrow>
         bs ! 1 = 0x31 \<and>
           (bs ! 3 = 0x30 \<and> 25 \<le> length bs \<or> bs ! 3 = 0x31 \<and> 29 \<le> length bs \<or>
            bs ! 3 = 0x32 \<and> 41 \<le> length bs)"
    and "(\<exists>major. product_version (take 6 bs) = Some (major, minor) \<and>
            header_extent major minor \<le> length bs \<and> major = 2) \<longleftrightarrow>
         bs ! 1 \<noteq> 0x31 \<and> 0x32 \<le> bs ! 3 \<and> bs ! 3 \<le> 0x7F \<and> 0x30 \<le> bs ! 5 \<and> bs ! 5 \<le> 0x39 \<and>
           minor = bs ! 5 - 0x30 \<and> (if bs ! 5 = 0x30 then 60 else 72) \<le> length bs"
proof -
  have n: "take 6 bs ! 1 = bs ! 1" "take 6 bs ! 3 = bs ! 3" "take 6 bs ! 5 = bs ! 5"
    by simp_all
  show "(\<exists>major minor. product_version (take 6 bs) = Some (major, minor) \<and>
            header_extent major minor \<le> length bs \<and> major = 1) \<longleftrightarrow>
         bs ! 1 = 0x31 \<and>
           (bs ! 3 = 0x30 \<and> 25 \<le> length bs \<or> bs ! 3 = 0x31 \<and> 29 \<le> length bs \<or>
            bs ! 3 = 0x32 \<and> 41 \<le> length bs)"
    unfolding product_version_explicit n
    by (auto simp: header_extent_def major1_seek_def)
  have z: "bs ! 5 - 0x30 = 0 \<longleftrightarrow> bs ! 5 = 0x30" by auto
  show "(\<exists>major. product_version (take 6 bs) = Some (major, minor) \<and>
            header_extent major minor \<le> length bs \<and> major = 2) \<longleftrightarrow>
         bs ! 1 \<noteq> 0x31 \<and> 0x32 \<le> bs ! 3 \<and> bs ! 3 \<le> 0x7F \<and> 0x30 \<le> bs ! 5 \<and> bs ! 5 \<le> 0x39 \<and>
           minor = bs ! 5 - 0x30 \<and> (if bs ! 5 = 0x30 then 60 else 72) \<le> length bs"
    unfolding product_version_explicit n
    by (auto simp: header_extent_def z)
qed

lemma sidecars_major1:
  assumes "read_index_file fs filename = Inr content" "fs filename = Some bs"
    "major_version content = 1"
  shows "sidecars_present after fs content filename"
  using read_index_file_fields(2) [OF assms] by (auto simp: sidecars_present_def)

lemma sidecars_major2:
  assumes r: "read_index_file fs filename = Inr content" and f: "fs filename = Some bs"
    and m: "major_version content = 2" and len: "4 \<le> length filename"
    and z: "\<forall>name. after name = []"
  shows "sidecars_present after fs content filename \<longleftrightarrow>
     (\<forall>level fp. level < bs ! 30 \<and>
         sint (if minor_version content = 0 then 0 else le_u32 (take 4 (drop 60 bs))) \<le> sint fp \<and>
         sint fp < sint (if minor_version content = 0 then 0
                         else le_u32 (take 4 (drop 64 bs))) \<longrightarrow>
         fs (sidecar_name filename level fp) \<noteq> None)"
proof -
  have names: "create_file_name_for_layer after content filename level fp =
                 Inr (sidecar_name filename level fp)" for level fp
    using z by (intro sidecar_name_built [OF m len]) simp
  from read_index_file_fields(3) [OF r f m]
  have fl: "level_count content = bs ! 30"
    "lowest_focal_plane_index content =
       (if minor_version content = 0 then 0 else le_u32 (take 4 (drop 60 bs)))"
    "highest_focal_plane_index content =
       (if minor_version content = 0 then 0 else le_u32 (take 4 (drop 64 bs)))"
    by simp_all
  show ?thesis
    unfolding sidecars_present_def names fl by simp
qed

text \<open>
  C5. Take memory in which a zero follows every file name that the backend builds (the
  source writes no terminating zero itself). Then \<open>vsf_detect\<close> on a file name, with no
  TIFF-like handle, returns true exactly when: the name is at least one character
  followed by \<open>.vsf\<close> with each letter in either case; the file opens and has six bytes;
  and either byte 1 is \<open>1\<close>, byte 3 is \<open>0\<close>, \<open>1\<close> or \<open>2\<close>, and the file has 25, 29 or 41
  bytes for these (major version 1: no image file is then asked for); or byte 1 is not
  \<open>1\<close>, byte 3 lies between \<open>2\<close> and \<open>0x7F\<close>, byte 5 is a digit, the file has 60 bytes
  when that digit is \<open>0\<close> and 72 otherwise, and the image file of every level below byte
  30 and of every focal plane in the range opens. The range is empty when byte 5 is \<open>0\<close>,
  and runs from the 32-bit number at byte 60 up to, and not including, the one at byte 64
  otherwise, both signed. The bytes 0, 2 and 4 are not looked at.
\<close>

theorem vsf_detect_acceptance:
  assumes zero_follows: "\<forall>name. after name = []"
  shows "vsf_detect after fs filename False = Inr True \<longleftrightarrow>
     (\<exists>stem e1 e2 e3 bs.
        filename = stem @ [CHR ''.'', e1, e2, e3] \<and> stem \<noteq> [] \<and>
        (e1 = CHR ''v'' \<or> e1 = CHR ''V'') \<and> (e2 = CHR ''s'' \<or> e2 = CHR ''S'') \<and>
        (e3 = CHR ''f'' \<or> e3 = CHR ''F'') \<and>
        fs filename = Some bs \<and> 6 \<le> length bs \<and>
        (bs ! 1 = 0x31 \<and>
           (bs ! 3 = 0x30 \<and> 25 \<le> length bs \<or> bs ! 3 = 0x31 \<and> 29 \<le> length bs \<or>
            bs ! 3 = 0x32 \<and> 41 \<le> length bs)
         \<or>
         bs ! 1 \<noteq> 0x31 \<and> 0x32 \<le> bs ! 3 \<and> bs ! 3 \<le> 0x7F \<and> 0x30 \<le> bs ! 5 \<and> bs ! 5 \<le> 0x39 \<and>
           (if bs ! 5 = 0x30 then 60 else 72) \<le> length bs \<and>
           (\<forall>level fp.
               level < bs ! 30 \<and>
               sint (if bs ! 5 = 0x30 then 0 else le_u32 (take 4 (drop 60 bs))) \<le> sint fp \<and>
               sint fp < sint (if bs ! 5 = 0x30 then 0 else le_u32 (take 4 (drop 64 bs))) \<longrightarrow>
               fs (sidecar_name filename level fp) \<noteq> None)))"
  (is "?L \<longleftrightarrow> ?R")
proof
  assume ?L
  then obtain content where r: "read_index_file fs filename = Inr content"
    and sp: "sidecars_present after fs content filename"
    unfolding detect_iff_sidecars by blast
  from r have "\<exists>content. read_index_file fs filename = Inr content" ..
  then obtain bs major minor where len: "4 < length filename"
    and ext: "extension_matches (drop (length filename - 4) filename) ''.vsf''"
    and f: "fs filename = Some bs" and six: "6 \<le> length bs"
    and pv: "product_version (take 6 bs) = Some (major, minor)"
    and he: "header_extent major minor \<le> length bs"
    unfolding read_index_file_ok_iff by blast
  from len ext obtain stem e1 e2 e3 where
    nm: "filename = stem @ [CHR ''.'', e1, e2, e3] \<and> stem \<noteq> [] \<and>
        (e1 = CHR ''v'' \<or> e1 = CHR ''V'') \<and> (e2 = CHR ''s'' \<or> e2 = CHR ''S'') \<and>
        (e3 = CHR ''f'' \<or> e3 = CHR ''F'')"
    using filename_ext_iff [of filename] by blast
  from read_index_file_fields(1) [OF r f] pv
  have mv: "major_version content = major" "minor_version content = minor" by simp_all
  have hdr: "bs ! 1 = 0x31 \<and>
           (bs ! 3 = 0x30 \<and> 25 \<le> length bs \<or> bs ! 3 = 0x31 \<and> 29 \<le> length bs \<or>
            bs ! 3 = 0x32 \<and> 41 \<le> length bs)
         \<or>
         bs ! 1 \<noteq> 0x31 \<and> 0x32 \<le> bs ! 3 \<and> bs ! 3 \<le> 0x7F \<and> 0x30 \<le> bs ! 5 \<and> bs ! 5 \<le> 0x39 \<and>
           (if bs ! 5 = 0x30 then 60 else 72) \<le> length bs \<and>
           (\<forall>level fp.
               level < bs ! 30 \<and>
               sint (if bs ! 5 = 0x30 then 0 else le_u32 (take 4 (drop 60 bs))) \<le> sint fp \<and>
               sint fp < sint (if bs ! 5 = 0x30 then 0 else le_u32 (take 4 (drop 64 bs))) \<longrightarrow>
               fs (sidecar_name filename level fp) \<noteq> None)"
    using product_version_cases [OF pv]
  proof
    assume "major = 1 \<and> minor \<in> {0, 1, 2}"
    then have "\<exists>major minor. product_version (take 6 bs) = Some (major, minor) \<and>
            header_extent major minor \<le> length bs \<and> major = 1"
      using pv he by blast
    then show ?thesis unfolding header_explicit(1) [OF six] by blast
  next
    assume m2: "major = 2"
    then have "\<exists>major. product_version (take 6 bs) = Some (major, minor) \<and>
            header_extent major minor \<le> length bs \<and> major = 2"
      using pv he by blast
    then have h2: "bs ! 1 \<noteq> 0x31 \<and> 0x32 \<le> bs ! 3 \<and> bs ! 3 \<le> 0x7F \<and> 0x30 \<le> bs ! 5 \<and>
           bs ! 5 \<le> 0x39 \<and> minor = bs ! 5 - 0x30 \<and>
           (if bs ! 5 = 0x30 then 60 else 72) \<le> length bs"
      unfolding header_explicit(2) [OF six] .
    then have z: "minor_version content = 0 \<longleftrightarrow> bs ! 5 = 0x30"
      using mv by auto
    from sp have "\<forall>level fp. level < bs ! 30 \<and>
         sint (if minor_version content = 0 then 0 else le_u32 (take 4 (drop 60 bs))) \<le> sint fp \<and>
         sint fp < sint (if minor_version content = 0 then 0
                         else le_u32 (take 4 (drop 64 bs))) \<longrightarrow>
         fs (sidecar_name filename level fp) \<noteq> None"
      using sidecars_major2 [OF r f _ _ zero_follows] mv m2 len by simp
    then show ?thesis using h2 unfolding z by blast
  qed
  show ?R
    using nm f six hdr by blast
next
  assume ?R
  then obtain stem e1 e2 e3 bs where
    nm: "\<exists>stem e1 e2 e3. filename = stem @ [CHR ''.'', e1, e2, e3] \<and> stem \<noteq> [] \<and>
        (e1 = CHR ''v'' \<or> e1 = CHR ''V'') \<and> (e2 = CHR ''s'' \<or> e2 = CHR ''S'') \<and>
        (e3 = CHR ''f'' \<or> e3 = CHR ''F'')"
    and f: "fs filename = Some bs" and six: "6 \<le> length bs"
    and hdr: "bs ! 1 = 0x31 \<and>
           (bs ! 3 = 0x30 \<and> 25 \<le> length bs \<or> bs ! 3 = 0x31 \<and> 29 \<le> length bs \<or>
            bs ! 3 = 0x32 \<and> 41 \<le> length bs)
         \<or>
         bs ! 1 \<noteq> 0x31 \<and> 0x32 \<le> bs ! 3 \<and> bs ! 3 \<le> 0x7F \<and> 0x30 \<le> bs ! 5 \<and> bs ! 5 \<le> 0x39 \<and>
           (if bs ! 5 = 0x30 then 60 else 72) \<le> length bs \<and>
           (\<forall>level fp.
               level < bs ! 30 \<and>
               sint (if bs ! 5 = 0x30 then 0 else le_u32 (take 4 (drop 60 bs))) \<le> sint fp \<and>
               sint fp < sint (if bs ! 5 = 0x30 then 0 else le_u32 (take 4 (drop 64 bs))) \<longrightarrow>
               fs (sidecar_name filename level fp) \<noteq> None)"
    by blast
  from nm have ln: "4 < length filename"
    and ext: "extension_matches (drop (length filename - 4) filename) ''.vsf''"
    using filename_ext_iff [of filename] by blast+
  from hdr show ?L
  proof
    assume h1: "bs ! 1 = 0x31 \<and>
           (bs ! 3 = 0x30 \<and> 25 \<le> length bs \<or> bs ! 3 = 0x31 \<and> 29 \<le> length bs \<or>
            bs ! 3 = 0x32 \<and> 41 \<le> length bs)"
    then obtain minor where pv: "product_version (take 6 bs) = Some (1, minor)"
      and he: "header_extent 1 minor \<le> length bs"
      unfolding header_explicit(1) [OF six, symmetric] by blast
    then have "\<exists>content. read_index_file fs filename = Inr content"
      unfolding read_index_file_ok_iff using ln ext f six by blast
    then obtain content where r: "read_index_file fs filename = Inr content" ..
    from read_index_file_fields(1) [OF r f] pv have "major_version content = 1" by simp
    from sidecars_major1 [OF r f this] r show ?L
      unfolding detect_iff_sidecars by blast
  next
    assume h2: "bs ! 1 \<noteq> 0x31 \<and> 0x32 \<le> bs ! 3 \<and> bs ! 3 \<le> 0x7F \<and> 0x30 \<le> bs ! 5 \<and> bs ! 5 \<le> 0x39 \<and>
           (if bs ! 5 = 0x30 then 60 else 72) \<le> length bs \<and>
           (\<forall>level fp.
               level < bs ! 30 \<and>
               sint (if bs ! 5 = 0x30 then 0 else le_u32 (take 4 (drop 60 bs))) \<le> sint fp \<and>
               sint fp < sint (if bs ! 5 = 0x30 then 0 else le_u32 (take 4 (drop 64 bs))) \<longrightarrow>
               fs (sidecar_name filename level fp) \<noteq> None)"
    then have "bs ! 1 \<noteq> 0x31 \<and> 0x32 \<le> bs ! 3 \<and> bs ! 3 \<le> 0x7F \<and> 0x30 \<le> bs ! 5 \<and>
           bs ! 5 \<le> 0x39 \<and> bs ! 5 - 0x30 = bs ! 5 - 0x30 \<and>
           (if bs ! 5 = 0x30 then 60 else 72) \<le> length bs"
      by blast
    then have pv: "product_version (take 6 bs) = Some (2, bs ! 5 - 0x30)"
      and he: "header_extent 2 (bs ! 5 - 0x30) \<le> length bs"
      unfolding header_explicit(2) [OF six, symmetric] by blast+
    then have "\<exists>content. read_index_file fs filename = Inr content"
      unfolding read_index_file_ok_iff using ln ext f six by blast
    then obtain content where r: "read_index_file fs filename = Inr content" ..
    from read_index_file_fields(1) [OF r f] pv
    have mv: "major_version content = 2" "minor_version content = bs ! 5 - 0x30" by simp_all
    have z: "minor_version content = 0 \<longleftrightarrow> bs ! 5 = 0x30" using mv by auto
    have l4: "4 \<le> length filename" using ln by simp
    have "sidecars_present after fs content filename"
      unfolding sidecars_major2 [OF r f mv(1) l4 zero_follows] z
      using h2 by blast
    with r show ?L
      unfolding detect_iff_sidecars by blast
  qed
qed

lemma terminated_zero: "\<forall>name. terminated name = []"
  by (simp add: terminated_def)

lemma sidecar_name_example: "sidecar_name ''a.vsf'' 0 0 = ''a-level00.img''"
  by (simp add: sidecar_name_def decimal_digit_0)

lemma index_example_range:
  fixes level :: byte and fp :: "32 word"
  assumes "level < index_bytes_example ! 30 \<and>
     sint (if index_bytes_example ! 5 = 0x30 then 0
           else le_u32 (take 4 (drop 60 index_bytes_example))) \<le> sint fp \<and>
     sint fp < sint (if index_bytes_example ! 5 = 0x30 then 0
                     else le_u32 (take 4 (drop 64 index_bytes_example)))"
  shows "level = 0 \<and> fp = 0"
proof -
  have b5: "index_bytes_example ! 5 = 0x31"
    by (simp add: index_bytes_example_def)
  from assms have "level < 1" and "0 \<le> sint fp" and "sint fp < 1"
    by (simp_all add: b5 index_bytes_example_facts le_u32_bytes)
  then have "level = 0" and "sint fp = sint (0 :: 32 word)"
    by (simp_all add: word_less_1)
  then show ?thesis by (auto intro: signed_word_eqI)
qed

theorem vsf_detect_acceptance_witness:
  "vsf_detect terminated fs_detect_example ''a.vsf'' False = Inr True \<and>
   sidecar_name ''a.vsf'' 0 0 = ''a-level00.img'' \<and>
   fs_detect_example ''a-level00.img'' \<noteq> None \<and>
   fs_detect_missing ''a-level00.img'' = None \<and>
   vsf_detect terminated fs_detect_missing ''a.vsf'' False \<noteq> Inr True"
proof -
  have b: "index_bytes_example ! 1 = 0x53" "index_bytes_example ! 3 = 0x32"
    "index_bytes_example ! 5 = 0x31"
    by (simp_all add: index_bytes_example_def)
  have present: "fs_detect_example ''a-level00.img'' \<noteq> None"
    by (simp add: fs_detect_example_def)
  have missing: "fs_detect_missing ''a-level00.img'' = None"
    by (simp add: fs_detect_missing_def)
  have all: "\<forall>level fp.
       level < index_bytes_example ! 30 \<and>
       sint (if index_bytes_example ! 5 = 0x30 then 0
             else le_u32 (take 4 (drop 60 index_bytes_example))) \<le> sint fp \<and>
       sint fp < sint (if index_bytes_example ! 5 = 0x30 then 0
                       else le_u32 (take 4 (drop 64 index_bytes_example))) \<longrightarrow>
       fs_detect_example (sidecar_name ''a.vsf'' level fp) \<noteq> None"
  proof (intro allI impI)
    fix level :: byte and fp :: "32 word"
    assume "level < index_bytes_example ! 30 \<and>
       sint (if index_bytes_example ! 5 = 0x30 then 0
             else le_u32 (take 4 (drop 60 index_bytes_example))) \<le> sint fp \<and>
       sint fp < sint (if index_bytes_example ! 5 = 0x30 then 0
                       else le_u32 (take 4 (drop 64 index_bytes_example)))"
    then have "level = 0 \<and> fp = 0" by (rule index_example_range)
    then show "fs_detect_example (sidecar_name ''a.vsf'' level fp) \<noteq> None"
      using present by (simp add: sidecar_name_example)
  qed
  have "\<exists>stem e1 e2 e3 bs.
        ''a.vsf'' = stem @ [CHR ''.'', e1, e2, e3] \<and> stem \<noteq> [] \<and>
        (e1 = CHR ''v'' \<or> e1 = CHR ''V'') \<and> (e2 = CHR ''s'' \<or> e2 = CHR ''S'') \<and>
        (e3 = CHR ''f'' \<or> e3 = CHR ''F'') \<and>
        fs_detect_example ''a.vsf'' = Some bs \<and> 6 \<le> length bs \<and>
        (bs ! 1 = 0x31 \<and>
           (bs ! 3 = 0x30 \<and> 25 \<le> length bs \<or> bs ! 3 = 0x31 \<and> 29 \<le> length bs \<or>
            bs ! 3 = 0x32 \<and> 41 \<le> length bs)
         \<or>
         bs ! 1 \<noteq> 0x31 \<and> 0x32 \<le> bs ! 3 \<and> bs ! 3 \<le> 0x7F \<and> 0x30 \<le> bs ! 5 \<and> bs ! 5 \<le> 0x39 \<and>
           (if bs ! 5 = 0x30 then 60 else 72) \<le> length bs \<and>
           (\<forall>level fp.
               level < bs ! 30 \<and>
               sint (if bs ! 5 = 0x30 then 0 else le_u32 (take 4 (drop 60 bs))) \<le> sint fp \<and>
               sint fp < sint (if bs ! 5 = 0x30 then 0 else le_u32 (take 4 (drop 64 bs))) \<longrightarrow>
               fs_detect_example (sidecar_name ''a.vsf'' level fp) \<noteq> None))"
    apply (rule exI [of _ "''a''"], rule exI [of _ "CHR ''v''"], rule exI [of _ "CHR ''s''"],
           rule exI [of _ "CHR ''f''"], rule exI [of _ index_bytes_example])
    using all by (simp add: fs_detect_example_def b index_bytes_example_facts)
  then have yes: "vsf_detect terminated fs_detect_example ''a.vsf'' False = Inr True"
    unfolding vsf_detect_acceptance [OF terminated_zero] .
  have no: "vsf_detect terminated fs_detect_missing ''a.vsf'' False \<noteq> Inr True"
  proof
    assume "vsf_detect terminated fs_detect_missing ''a.vsf'' False = Inr True"
    then obtain bs where f: "fs_detect_missing ''a.vsf'' = Some bs"
      and h: "bs ! 1 = 0x31 \<and>
           (bs ! 3 = 0x30 \<and> 25 \<le> length bs \<or> bs ! 3 = 0x31 \<and> 29 \<le> length bs \<or>
            bs ! 3 = 0x32 \<and> 41 \<le> length bs)
         \<or>
         bs ! 1 \<noteq> 0x31 \<and> 0x32 \<le> bs ! 3 \<and> bs ! 3 \<le> 0x7F \<and> 0x30 \<le> bs ! 5 \<and> bs ! 5 \<le> 0x39 \<and>
           (if bs ! 5 = 0x30 then 60 else 72) \<le> length bs \<and>
           (\<forall>level fp.
               level < bs ! 30 \<and>
               sint (if bs ! 5 = 0x30 then 0 else le_u32 (take 4 (drop 60 bs))) \<le> sint fp \<and>
               sint fp < sint (if bs ! 5 = 0x30 then 0 else le_u32 (take 4 (drop 64 bs))) \<longrightarrow>
               fs_detect_missing (sidecar_name ''a.vsf'' level fp) \<noteq> None)"
      unfolding vsf_detect_acceptance [OF terminated_zero] by blast
    from f have bs: "bs = index_bytes_example" by (simp add: fs_detect_missing_def)
    have b1: "index_bytes_example ! Suc 0 \<noteq> 0x31"
      by (simp add: index_bytes_example_def)
    from h have "\<forall>level fp.
               level < bs ! 30 \<and>
               sint (if bs ! 5 = 0x30 then 0 else le_u32 (take 4 (drop 60 bs))) \<le> sint fp \<and>
               sint fp < sint (if bs ! 5 = 0x30 then 0 else le_u32 (take 4 (drop 64 bs))) \<longrightarrow>
               fs_detect_missing (sidecar_name ''a.vsf'' level fp) \<noteq> None"
      unfolding bs using b1 by (simp add: b)
    from this [THEN spec, THEN spec, of 0 0]
    have "fs_detect_missing (sidecar_name ''a.vsf'' 0 0) \<noteq> None"
      unfolding bs by (simp add: b index_bytes_example_facts le_u32_bytes)
    with missing show False by (simp add: sidecar_name_example)
  qed
  from yes sidecar_name_example present missing no show ?thesis by (intro conjI)
qed

text \<open>Two index files set the code apart from the reading that the first six bytes
  are \<open>VSF\<close>, the major version, a dot and the minor version. With \<open>X1X0XX\<close> in front, 25
  bytes long, \<open>a.vsf\<close> is accepted as version 1.0: no image file is asked for, since the
  focal planes run from 0 up to 0. With \<open>VSF1.0\<close> in front \<open>b.vsf\<close> is refused: byte 1
  is \<open>S\<close>, and byte 3, \<open>1\<close>, is below \<open>2\<close>.\<close>

theorem detect_ignores_magic:
  "vsf_detect terminated fs_detect_unmarked ''a.vsf'' False = Inr True \<and>
   fs_detect_unmarked ''a.vsf'' = Some ([0x58, 0x31, 0x58, 0x30, 0x58, 0x58] @ replicate 19 0) \<and>
   vsf_detect terminated fs_detect_unmarked ''b.vsf'' False = Inr False \<and>
   read_index_file fs_detect_unmarked ''b.vsf'' = Inl (GError Failed_To_Read_Product_Version) \<and>
   fs_detect_unmarked ''b.vsf'' = Some ([0x56, 0x53, 0x46, 0x31, 0x2E, 0x30] @ replicate 19 0)"
proof -
  let ?a = "[0x58, 0x31, 0x58, 0x30, 0x58, 0x58] @ replicate 19 (0 :: byte)"
  let ?b = "[0x56, 0x53, 0x46, 0x31, 0x2E, 0x30] @ replicate 19 (0 :: byte)"
  have fa: "fs_detect_unmarked ''a.vsf'' = Some ?a" and fb: "fs_detect_unmarked ''b.vsf'' = Some ?b"
    by (simp_all add: fs_detect_unmarked_def)
  have pa: "product_version (take 6 ?a) = Some (1, 0)"
    by (simp add: product_version_def)
  have "\<exists>content. read_index_file fs_detect_unmarked ''a.vsf'' = Inr content"
    unfolding read_index_file_ok_iff using fa pa
    by (simp add: header_extent_def major1_seek_def)
  then obtain content where r: "read_index_file fs_detect_unmarked ''a.vsf'' = Inr content" ..
  from read_index_file_fields(1) [OF r fa] pa have "major_version content = 1" by simp
  from sidecars_major1 [OF r fa this] r
  have a: "vsf_detect terminated fs_detect_unmarked ''a.vsf'' False = Inr True"
    unfolding detect_iff_sidecars by blast
  have six: "0 < (6::nat)" by simp
  have rb: "read_bytes \<lparr>f_content = ?b, f_pos = 0\<rparr> 6 =
              Inr (take 6 ?b, \<lparr>f_content = ?b, f_pos = 6\<rparr>)"
    using read_bytes_ok [OF six, of "\<lparr>f_content = ?b, f_pos = 0\<rparr>"] by simp
  have pb: "product_version (take 6 ?b) = None"
    by (simp add: product_version_def)
  have b: "read_index_file fs_detect_unmarked ''b.vsf'' = Inl (GError Failed_To_Read_Product_Version)"
    using fb rb pb by (simp add: read_index_file_def openslide_fopen_def Let_def)
  then have b': "vsf_detect terminated fs_detect_unmarked ''b.vsf'' False = Inr False"
    by (simp add: vsf_detect_def)
  from a b b' fa fb show ?thesis by simp
qed


subsection \<open>Reading a tile\<close>

text \<open>\<open>read_tile\<close> on a miss, for a tile index inside the descriptors of the level, when
  the locator and \<open>_get_tile_dimension\<close> succeed and the slide carries no error: whatever
  \<open>_get_tile_data\<close> returns, short of ending the process, the buffer is put into the
  cache.\<close>

lemma read_tile_drops_result:
  assumes ti: "tile_index = tile_row * tiles_across level_data + tile_col"
    and range: "0 \<le> sint tile_index" "sint tile_index < int (length (lv_tiles level_data))"
    and miss: "map_of (c_hashtable (osr_cache osr))
                 \<lparr>k_plane = lv_plane level_data, k_x = tile_col, k_y = tile_row\<rparr> = None"
    and loc: "get_tile_file_location fs (osr_data osr) (lv_filename level_data)
                (lv_layer level_data) (ucast tile_index) = Inr (offset, sz)"
    and dim: "get_tile_dimension rs cd (osr_data osr) level_data offset tile_col tile_row =
                (True, width, height)"
    and no_error: "osr_error osr = None"
    and returns: "\<And>a. get_tile_data rs fs cd osr level_data tile_index width height \<noteq>
                      Inl (Crash a)"
  shows "read_tile rs fs cd tiledata osr level_data tile_col tile_row =
     (case openslide_cache_put (lv_plane level_data) tile_col tile_row tiledata
             (width * height * 4) (osr_cache osr) of
        Inl a \<Rightarrow> Inl a
      | Inr (cache_entry, c2) \<Rightarrow>
          (case openslide_cache_entry_unref cache_entry c2 of
             Inl a \<Rightarrow> Inl a
           | Inr c3 \<Rightarrow>
               Inr (True, c3,
                    (lv_tiles level_data)[nat (sint tile_index) :=
                       \<lparr>t_offset = offset, t_size = sz, t_width = width,
                        t_height = height\<rparr>])))"
proof -
  have d: "(case get_tile_data rs fs cd osr level_data tile_index width height of
              Inl (GError e) \<Rightarrow> x | Inl (Crash a) \<Rightarrow> Inl a | Inr b \<Rightarrow> x) = x" for x :: "abort + (bool \<times> cache_state \<times> level_tile_data list)"
    using returns
    by (cases "get_tile_data rs fs cd osr level_data tile_index width height")
       (auto split: failure.splits)
  show ?thesis
    using range
    unfolding read_tile_def ti [symmetric] get_miss [OF miss] Let_def
    by (simp add: loc dim no_error d)
qed

lemma four_byte_tile_file_facts:
  "length four_byte_tile_file = 28"
  "take 8 (drop 8 four_byte_tile_file) = u64_bytes 1"
  "take 8 (drop 16 four_byte_tile_file) = u64_bytes 24"
  by (simp_all add: four_byte_tile_file_def)

lemma zero_tile_file_facts:
  "length zero_tile_file = 24"
  "take 8 (drop 8 zero_tile_file) = u64_bytes 1"
  "take 8 (drop 16 zero_tile_file) = u64_bytes 24"
  by (simp_all add: zero_tile_file_def)

lemma four_byte_tile_location:
  "get_tile_infomation_version2 minor \<lparr>f_content = four_byte_tile_file, f_pos = 0\<rparr> 0 =
     Inr (24, 4)"
  by (simp add: get_tile_infomation_version2_def sizeof_uint64_def fseeko_def ftello_def
       read_bytes_ok four_byte_tile_file_facts le_u64_bytes Let_def)

lemma zero_tile_location:
  "get_tile_infomation_version2 minor \<lparr>f_content = zero_tile_file, f_pos = 0\<rparr> 0 =
     Inr (24, 0)"
  by (simp add: get_tile_infomation_version2_def sizeof_uint64_def fseeko_def ftello_def
       read_bytes_ok zero_tile_file_facts le_u64_bytes Let_def)

lemma example_index: "(0 :: 64 word) = 0 * tiles_across level_example + 0"
  by simp

lemma example_miss:
  "map_of (c_hashtable (osr_cache osr_example))
     \<lparr>k_plane = lv_plane level_example, k_x = 0, k_y = 0\<rparr> = None"
  by (simp add: osr_example_def openslide_cache_create_def)

lemma example_range:
  "0 \<le> sint (0 :: 64 word)" "sint (0 :: 64 word) < int (length (lv_tiles level_example))"
  by (simp_all add: level_example_def)

lemma example_locations:
  "get_tile_file_location fs_four_byte_tile (osr_data osr_example) ''t-level00.img'' 0 0 =
     Inr (24, 4)"
  "get_tile_file_location fs_zero_tile (osr_data osr_example) ''t-level00.img'' 0 0 =
     Inr (24, 0)"
  by (simp_all add: get_tile_file_location_def fs_four_byte_tile_def fs_zero_tile_def
        openslide_fopen_def osr_example_def four_byte_tile_location zero_tile_location)

lemma example_dimension:
  "get_tile_dimension rs cd (osr_data osr_example) level_example offset 0 0 = (True, 256, 256)"
  by (simp add: get_tile_dimension_def osr_example_def level_example_def MIN_s64_def
        tile_format_png_def tile_format_jpeg_def)

lemma example_layer_name:
  "create_file_name_for_layer terminated (osr_data osr_example) ''t.vsf'' 0 0 =
     Inr ''t-level00.img''"
  by (simp add: create_file_name_for_layer_def create_file_name_with_extension_def
        osr_example_def terminated_def decimal_digit_0 Let_def)

lemma example_decode_refused:
  "get_tile_data_version2 fs_four_byte_tile codecs_refusing (osr_data osr_example)
     ''t-level00.img'' 24 4 256 256 = Inl (GError Codec_Error)"
  by (simp add: get_tile_data_version2_def fs_four_byte_tile_def openslide_fopen_def
        osr_example_def codecs_refusing_def tile_format_png_def tile_format_jpeg_def
        tile_format_jpeg2000_def Let_def)

lemma example_tile_data:
  "get_tile_data residue_zero fs_four_byte_tile codecs_refusing osr_example level_example
     0 256 256 = Inl (GError Codec_Error)"
  "get_tile_data residue_zero fs_zero_tile codecs_refusing osr_example level_example
     0 256 256 = Inr False"
proof -
  have n: "create_file_name_for_layer (after_name residue_zero) (osr_data osr_example)
             ''t.vsf'' 0 0 = Inr ''t-level00.img''"
    using example_layer_name by (simp add: residue_zero_def)
  have m: "major_version (osr_data osr_example) = 2" "osr_vsf_filename osr_example = Some ''t.vsf''"
    "lv_layer level_example = 0"
    by (simp_all add: osr_example_def level_example_def)
  show "get_tile_data residue_zero fs_four_byte_tile codecs_refusing osr_example level_example
     0 256 256 = Inl (GError Codec_Error)"
    unfolding get_tile_data_def
    by (simp add: n m example_locations example_decode_refused)
  show "get_tile_data residue_zero fs_zero_tile codecs_refusing osr_example level_example
     0 256 256 = Inr False"
    unfolding get_tile_data_def
    by (simp add: n m example_locations)
qed

lemma example_put:
  "(case openslide_cache_put (lv_plane level_example) 0 0 500 262144
           (osr_cache osr_example) of
      Inl a \<Rightarrow> Inl a
    | Inr (cache_entry, c2) \<Rightarrow>
        (case openslide_cache_entry_unref cache_entry c2 of
           Inl a \<Rightarrow> Inl a
         | Inr c3 \<Rightarrow> Inr (True, c3, tiles))) = Inr (True, cache_holding_tile, tiles)"
  by (simp add: osr_example_def level_example_def cache_holding_tile_def cache_eval)

text \<open>
  C4, as the code has it. \<open>read_tile\<close> calls \<open>_get_tile_data\<close>, drops what it returns and
  looks at \<open>openslide_get_error\<close> instead, which \<open>_get_tile_data\<close> never sets: it reports
  through \<open>err\<close>. So a tile that cannot be decoded, and a tile of size 0, both go into the
  cache, and \<open>read_tile\<close> returns true. Here the slide has version 2.0 and PNG tiles, the
  cache is empty and the lookup misses; the codecs refuse every tile. For the tile of four
  bytes \<open>_get_tile_data\<close> fails with the error of the codec, for the tile of size 0 it
  returns false; in both cases \<open>read_tile\<close> returns true and leaves the buffer of
  256 * 256 * 4 bytes in the cache under the key of the tile.
\<close>

theorem failed_tile_is_cached:
  "openslide_cache_get (lv_plane level_example) 0 0 (osr_cache osr_example) =
     Inr (None, osr_cache osr_example) \<and>
   osr_error osr_example = None \<and>
   get_tile_data residue_zero fs_four_byte_tile codecs_refusing osr_example level_example
     0 256 256 = Inl (GError Codec_Error) \<and>
   read_tile residue_zero fs_four_byte_tile codecs_refusing 500 osr_example level_example 0 0 =
     Inr (True, cache_holding_tile,
          [\<lparr>t_offset = 24, t_size = 4, t_width = 256, t_height = 256\<rparr>]) \<and>
   get_tile_data residue_zero fs_zero_tile codecs_refusing osr_example level_example
     0 256 256 = Inr False \<and>
   read_tile residue_zero fs_zero_tile codecs_refusing 500 osr_example level_example 0 0 =
     Inr (True, cache_holding_tile,
          [\<lparr>t_offset = 24, t_size = 0, t_width = 256, t_height = 256\<rparr>]) \<and>
   map_of (c_hashtable cache_holding_tile) \<lparr>k_plane = 1, k_x = 0, k_y = 0\<rparr> =
     Some \<lparr>v_key = \<lparr>k_plane = 1, k_x = 0, k_y = 0\<rparr>, v_entry = 0\<rparr>"
proof -
  have g: "openslide_cache_get (lv_plane level_example) 0 0 (osr_cache osr_example) =
     Inr (None, osr_cache osr_example)"
    by (rule get_miss [OF example_miss])
  have e: "osr_error osr_example = None" by (simp add: osr_example_def)
  have l: "get_tile_file_location fs_four_byte_tile (osr_data osr_example)
             (lv_filename level_example) (lv_layer level_example) (ucast (0 :: 64 word)) =
             Inr (24, 4)"
    "get_tile_file_location fs_zero_tile (osr_data osr_example)
             (lv_filename level_example) (lv_layer level_example) (ucast (0 :: 64 word)) =
             Inr (24, 0)"
    using example_locations by (simp_all add: level_example_def)
  have t: "(lv_tiles level_example)[nat (sint (0 :: 64 word)) := d] = [d]" for d
    by (simp add: level_example_def)
  have r1: "read_tile residue_zero fs_four_byte_tile codecs_refusing 500 osr_example
              level_example 0 0 =
     Inr (True, cache_holding_tile,
          [\<lparr>t_offset = 24, t_size = 4, t_width = 256, t_height = 256\<rparr>])"
    unfolding read_tile_drops_result [OF example_index example_range example_miss l(1)
        example_dimension e, of residue_zero codecs_refusing, unfolded example_tile_data,
        simplified] t
    by (rule example_put)
  have r2: "read_tile residue_zero fs_zero_tile codecs_refusing 500 osr_example
              level_example 0 0 =
     Inr (True, cache_holding_tile,
          [\<lparr>t_offset = 24, t_size = 0, t_width = 256, t_height = 256\<rparr>])"
    unfolding read_tile_drops_result [OF example_index example_range example_miss l(2)
        example_dimension e, of residue_zero codecs_refusing, unfolded example_tile_data,
        simplified] t
    by (rule example_put)
  have m: "map_of (c_hashtable cache_holding_tile) \<lparr>k_plane = 1, k_x = 0, k_y = 0\<rparr> =
     Some \<lparr>v_key = \<lparr>k_plane = 1, k_x = 0, k_y = 0\<rparr>, v_entry = 0\<rparr>"
    by (simp add: cache_holding_tile_def)
  from g e example_tile_data(1) r1 example_tile_data(2) r2 m show ?thesis
    by (intro conjI)
qed

end
